theory Spec2Isabelle
  imports Main "HOL-Library.AList"
begin

section \<open>The supervisor's agent registry (supervisor/registry.py)\<close>

text \<open>
  The module keeps a process-wide list \<^verbatim>\<open>_agents\<close>, mirrors the statuses of its
  records into the JSON file \<^verbatim>\<open>REGISTRY_FILE\<close>, and probes the health endpoint of
  every agent over HTTP. The embedding passes the module state explicitly, gives every
  Python exception a value, and records the order of the I/O requests in a trace.
\<close>

subsection \<open>JSON values and Python exceptions\<close>

text \<open>
  What \<^verbatim>\<open>json.load\<close> and \<^verbatim>\<open>response.json()\<close> return. An object is an association
  list, since a Python dict keeps the insertion order of its keys and
  \<^verbatim>\<open>json.dump\<close> writes them in that order. No function of the module computes with
  a number: an \<^verbatim>\<open>int\<close> is an integer, and a \<^verbatim>\<open>float\<close> is held as the text that
  \<^verbatim>\<open>json.dump\<close> writes for it (its \<^verbatim>\<open>repr\<close>, such as \<^verbatim>\<open>100.0\<close>, or
  \<^verbatim>\<open>Infinity\<close>). A character of a string is a code point below 256.
\<close>

datatype json =
    JNull
  | JBool bool
  | JNum int
  | JFloat string
  | JStr string
  | JArr "json list"
  | JObj "(string \<times> json) list"

datatype exn =
    FileNotFoundError
  | PermissionError
  | JSONDecodeError
  | TypeError
  | AttributeError
  | ValidationError
  | ConnectError
  | TimeoutException

text \<open>\<^verbatim>\<open>x.get(k)\<close>: only a dict has the method; a missing key gives \<^verbatim>\<open>None\<close>.\<close>

definition json_get :: "json \<Rightarrow> string \<Rightarrow> exn + json" where
  "json_get j k =
     (case j of
        JObj kvs \<Rightarrow> Inr (case map_of kvs k of None \<Rightarrow> JNull | Some v \<Rightarrow> v)
      | _ \<Rightarrow> Inl AttributeError)"

text \<open>\<^verbatim>\<open>for x in j\<close>: a list gives its elements, a dict its keys, a string its
  characters; nothing else is iterable.\<close>

definition py_iter :: "json \<Rightarrow> exn + json list" where
  "py_iter j =
     (case j of
        JArr es \<Rightarrow> Inr es
      | JObj kvs \<Rightarrow> Inr (map (\<lambda>kv. JStr (fst kv)) kvs)
      | JStr s \<Rightarrow> Inr (map (\<lambda>c. JStr [c]) s)
      | _ \<Rightarrow> Inl TypeError)"

fun is_substr :: "string \<Rightarrow> string \<Rightarrow> bool" where
  "is_substr p [] = (p = [])"
| "is_substr p (c # cs) = (take (length p) (c # cs) = p \<or> is_substr p cs)"

text \<open>\<^verbatim>\<open>k in j\<close> for a string \<^verbatim>\<open>k\<close>: key membership in a dict, substring test in a
  string, element test in a list, \<^verbatim>\<open>TypeError\<close> otherwise.\<close>

definition py_contains :: "string \<Rightarrow> json \<Rightarrow> exn + bool" where
  "py_contains k j =
     (case j of
        JObj kvs \<Rightarrow> Inr (k \<in> set (map fst kvs))
      | JStr s \<Rightarrow> Inr (is_substr k s)
      | JArr es \<Rightarrow> Inr (JStr k \<in> set es)
      | _ \<Rightarrow> Inl TypeError)"

subsection \<open>\<^verbatim>\<open>json.dump(d, f, indent=2)\<close>\<close>

text \<open>
  The text that the encoder of the standard library writes: items of a list or a dict on
  lines of their own, indented by two spaces per level, \<^verbatim>\<open>,\<close> between items and
  \<^verbatim>\<open>: \<close> after a key, no newline at the end; with \<^verbatim>\<open>ensure_ascii\<close> every character
  outside the printable ASCII range is escaped.
\<close>

definition digit_char :: "nat \<Rightarrow> char" where
  "digit_char n = char_of (48 + n)"

fun show_nat :: "nat \<Rightarrow> string" where
  "show_nat n = (if n < 10 then [digit_char n] else show_nat (n div 10) @ [digit_char (n mod 10)])"

declare show_nat.simps [simp del]

definition show_int :: "int \<Rightarrow> string" where
  "show_int i = (if i < 0 then CHR ''-'' # show_nat (nat (- i)) else show_nat (nat i))"

definition hex_char :: "nat \<Rightarrow> char" where
  "hex_char n = (if n < 10 then char_of (48 + n) else char_of (87 + n))"

text \<open>The double quote is \<^verbatim>\<open>CHR 0x22\<close>, the backslash \<^verbatim>\<open>CHR 0x5C\<close>.\<close>

definition escape_char :: "char \<Rightarrow> string" where
  "escape_char c =
     (if c = CHR 0x22 then [CHR 0x5C, CHR 0x22]
      else if c = CHR 0x5C then [CHR 0x5C, CHR 0x5C]
      else if c = CHR 0x0A then [CHR 0x5C, CHR ''n'']
      else if c = CHR 0x0D then [CHR 0x5C, CHR ''r'']
      else if c = CHR 0x09 then [CHR 0x5C, CHR ''t'']
      else if c = CHR 0x08 then [CHR 0x5C, CHR ''b'']
      else if c = CHR 0x0C then [CHR 0x5C, CHR ''f'']
      else if (of_char c :: nat) < 32 \<or> 126 < (of_char c :: nat)
      then [CHR 0x5C, CHR ''u'', CHR ''0'', CHR ''0'',
            hex_char (of_char c div 16), hex_char (of_char c mod 16)]
      else [c])"

definition quoted :: "string \<Rightarrow> string" where
  "quoted s = CHR 0x22 # concat (map escape_char s) @ [CHR 0x22]"

definition newline_indent :: "nat \<Rightarrow> string" where
  "newline_indent lvl = CHR 0x0A # replicate (2 * lvl) CHR '' ''"

fun join :: "string \<Rightarrow> string list \<Rightarrow> string" where
  "join sep [] = []"
| "join sep [x] = x"
| "join sep (x # y # ys) = x @ sep @ join sep (y # ys)"

fun dumps :: "nat \<Rightarrow> json \<Rightarrow> string" where
  "dumps lvl JNull = ''null''"
| "dumps lvl (JBool b) = (if b then ''true'' else ''false'')"
| "dumps lvl (JNum n) = show_int n"
| "dumps lvl (JFloat r) = r"
| "dumps lvl (JStr s) = quoted s"
| "dumps lvl (JArr es) =
     (if es = [] then ''[]''
      else ''['' @ newline_indent (Suc lvl) @
           join ('','' @ newline_indent (Suc lvl)) (map (dumps (Suc lvl)) es) @
           newline_indent lvl @ '']'')"
| "dumps lvl (JObj kvs) =
     (if kvs = [] then ''{}''
      else ''{'' @ newline_indent (Suc lvl) @
           join ('','' @ newline_indent (Suc lvl))
             (map (\<lambda>kv. quoted (fst kv) @ '': '' @ dumps (Suc lvl) (snd kv)) kvs) @
           newline_indent lvl @ ''}'')"

definition json_dump :: "json \<Rightarrow> string" where
  "json_dump d = dumps 0 d"

subsection \<open>Agent records\<close>

record agent =
  agent_id :: string
  url :: string
  status :: string
  extra :: "(string \<times> json) list"

text \<open>
  Modelled from the spec: the class \<^verbatim>\<open>Agent\<close> of \<^verbatim>\<open>shared/models.py\<close> is
  imported by the registry and is not among the sources. In the spec an Agent Record has
  an \<^verbatim>\<open>id\<close> and a \<^verbatim>\<open>url\<close>, both strings, a \<^verbatim>\<open>status\<close>, and arbitrary additional
  fields; a \<^verbatim>\<open>status\<close> field of the durable entry is never treated as authoritative
  on load, and the in-memory status of every loaded record begins as \<^verbatim>\<open>unknown\<close>
  regardless of what was on disk. So the constructor takes \<^verbatim>\<open>id\<close> and \<^verbatim>\<open>url\<close> from
  the entry, rejects an entry in which one of them is not a string, starts the status as
  \<^verbatim>\<open>unknown\<close> and keeps the other fields.
\<close>

definition Agent :: "(string \<times> json) list \<Rightarrow> exn + agent" where
  "Agent data =
     (case (map_of data ''id'', map_of data ''url'') of
        (Some (JStr i), Some (JStr u)) \<Rightarrow>
          Inr \<lparr>agent_id = i, url = u, status = ''unknown'',
               extra = filter (\<lambda>kv. fst kv \<notin> {''id'', ''url'', ''status''}) data\<rparr>
      | _ \<Rightarrow> Inl ValidationError)"

text \<open>\<^verbatim>\<open>Agent(**data)\<close> at the call site: the argument of \<^verbatim>\<open>**\<close> must be a mapping.\<close>

definition construct_agent :: "json \<Rightarrow> exn + agent" where
  "construct_agent d = (case d of JObj kvs \<Rightarrow> Agent kvs | _ \<Rightarrow> Inl TypeError)"

subsection \<open>Module state, durable file, log and I/O trace\<close>

datatype disk_file =
    Missing
  | Unreadable
  | Invalid
  | Doc json

datatype level = DEBUG | INFO | WARNING | ERROR

datatype message =
    Skipping_invalid_entry json
  | Loaded nat
  | Registry_file_not_found
  | Checking_health string string
  | Health_check_failed string exn
  | Failed_to_persist exn
  | Health_checks_complete
  | Persisted
  | Error_saving exn
  | Live_check_error string exn

datatype io_event =
    Probe_sent string
  | Probe_resolved string
  | File_open_read
  | File_open_write

text \<open>
  \<^verbatim>\<open>registry_file\<close> is what opening \<^verbatim>\<open>REGISTRY_FILE\<close> and \<^verbatim>\<open>json.load\<close> give,
  \<^verbatim>\<open>registry_text\<close> the bytes of the file (of no account while the file is missing).
\<close>

record state =
  agents :: "agent list"
  registry_file :: disk_file
  registry_text :: string
  writable :: bool
  logged :: "(level \<times> message) list"
  trace :: "io_event list"

definition log_msg :: "level \<Rightarrow> message \<Rightarrow> state \<Rightarrow> state" where
  "log_msg l m st = st\<lparr>logged := logged st @ [(l, m)]\<rparr>"

definition emit :: "io_event \<Rightarrow> state \<Rightarrow> state" where
  "emit e st = st\<lparr>trace := trace st @ [e]\<rparr>"

text \<open>\<^verbatim>\<open>with open(REGISTRY_FILE, 'r') as f: json.load(f)\<close>.\<close>

definition read_registry :: "state \<Rightarrow> (exn + json) \<times> state" where
  "read_registry st =
     (case registry_file st of
        Missing \<Rightarrow> Inl FileNotFoundError
      | Unreadable \<Rightarrow> Inl PermissionError
      | Invalid \<Rightarrow> Inl JSONDecodeError
      | Doc d \<Rightarrow> Inr d,
      emit File_open_read st)"

text \<open>\<^verbatim>\<open>with open(REGISTRY_FILE, 'w') as f: json.dump(d, f, indent=2)\<close>.\<close>

definition write_registry :: "json \<Rightarrow> state \<Rightarrow> (exn + unit) \<times> state" where
  "write_registry d st =
     (if writable st
      then (Inr (), (emit File_open_write st)\<lparr>registry_file := Doc d,
                                                registry_text := json_dump d\<rparr>)
      else (Inl PermissionError, emit File_open_write st))"

subsection \<open>\<^verbatim>\<open>load_registry\<close>\<close>

definition skip_entry :: "json \<Rightarrow> state \<Rightarrow> state" where
  "skip_entry d st = log_msg WARNING (Skipping_invalid_entry d) st"

text \<open>The test \<^verbatim>\<open>'id' not in data or 'url' not in data\<close>; \<^verbatim>\<open>or\<close> does not
  evaluate its second operand when the first is true.\<close>

definition invalid_entry :: "json \<Rightarrow> exn + bool" where
  "invalid_entry d =
     (case py_contains ''id'' d of
        Inl e \<Rightarrow> Inl e
      | Inr has_id \<Rightarrow>
          if \<not> has_id then Inr True
          else (case py_contains ''url'' d of
                  Inl e \<Rightarrow> Inl e
                | Inr has_url \<Rightarrow> Inr (\<not> has_url)))"

text \<open>The loop \<^verbatim>\<open>for data in agents_data\<close>; an exception leaves it with the records
  appended so far.\<close>

fun load_entries :: "json list \<Rightarrow> state \<Rightarrow> (exn + unit) \<times> state" where
  "load_entries [] st = (Inr (), st)"
| "load_entries (d # ds) st =
     (case invalid_entry d of
        Inl e \<Rightarrow> (Inl e, st)
      | Inr skip \<Rightarrow>
          if skip then load_entries ds (skip_entry d st)
          else
            (case construct_agent d of
               Inl e \<Rightarrow> (Inl e, st)
             | Inr a \<Rightarrow> load_entries ds (st\<lparr>agents := agents st @ [a]\<rparr>)))"

text \<open>The \<^verbatim>\<open>try\<close> block of \<^verbatim>\<open>load_registry\<close>.\<close>

definition load_body :: "state \<Rightarrow> (exn + unit) \<times> state" where
  "load_body st =
     (case read_registry st of
        (Inl e, st1) \<Rightarrow> (Inl e, st1)
      | (Inr agents_data, st1) \<Rightarrow>
          (let st2 = st1\<lparr>agents := []\<rparr> in
           case py_iter agents_data of
             Inl e \<Rightarrow> (Inl e, st2)
           | Inr ds \<Rightarrow>
               (case load_entries ds st2 of
                  (Inl e, st3) \<Rightarrow> (Inl e, st3)
                | (Inr u, st3) \<Rightarrow> (Inr (), log_msg INFO (Loaded (length (agents st3))) st3))))"

text \<open>Only \<^verbatim>\<open>FileNotFoundError\<close> is caught.\<close>

definition load_registry :: "state \<Rightarrow> (exn + unit) \<times> state" where
  "load_registry st =
     (case load_body st of
        (Inl e, st1) \<Rightarrow>
          if e = FileNotFoundError
          then (Inr (), (log_msg ERROR Registry_file_not_found st1)\<lparr>agents := []\<rparr>)
          else (Inl e, st1)
      | (Inr u, st1) \<Rightarrow> (Inr (), st1))"

definition list_agents :: "state \<Rightarrow> agent list" where
  "list_agents st = agents st"

subsection \<open>\<^verbatim>\<open>save_registry_statuses\<close>\<close>

text \<open>\<^verbatim>\<open>{a.id: a.status for a in _agents}\<close>: a later record overwrites an earlier one.\<close>

definition status_map :: "agent list \<Rightarrow> (string \<rightharpoonup> string)" where
  "status_map ags = foldl (\<lambda>m a. m(agent_id a \<mapsto> status a)) Map.empty ags"

text \<open>A list or a dict cannot be hashed, every other JSON value can.\<close>

definition hashable :: "json \<Rightarrow> bool" where
  "hashable j = (case j of JArr es \<Rightarrow> False | JObj kvs \<Rightarrow> False | _ \<Rightarrow> True)"

text \<open>\<^verbatim>\<open>aid in status_map\<close> and \<^verbatim>\<open>status_map[aid]\<close>: the lookup hashes \<^verbatim>\<open>aid\<close>; the
  keys are strings, so no value other than a string is found.\<close>

definition status_lookup :: "(string \<rightharpoonup> string) \<Rightarrow> json \<Rightarrow> exn + string option" where
  "status_lookup m aid =
     (if \<not> hashable aid then Inl TypeError
      else (case aid of JStr s \<Rightarrow> Inr (m s) | _ \<Rightarrow> Inr None))"

text \<open>\<^verbatim>\<open>entry['status'] = v\<close>: an existing key keeps its place, a new key goes last.\<close>

definition set_status :: "string \<Rightarrow> json \<Rightarrow> json" where
  "set_status v entry =
     (case entry of JObj kvs \<Rightarrow> JObj (AList.update ''status'' (JStr v) kvs) | _ \<Rightarrow> entry)"

definition overlay_entry :: "(string \<rightharpoonup> string) \<Rightarrow> json \<Rightarrow> exn + json" where
  "overlay_entry m entry =
     (case json_get entry ''id'' of
        Inl e \<Rightarrow> Inl e
      | Inr aid \<Rightarrow>
          (case status_lookup m aid of
             Inl e \<Rightarrow> Inl e
           | Inr None \<Rightarrow> Inr entry
           | Inr (Some v) \<Rightarrow> Inr (set_status v entry)))"

fun overlay_all :: "(string \<rightharpoonup> string) \<Rightarrow> json list \<Rightarrow> exn + json list" where
  "overlay_all m [] = Inr []"
| "overlay_all m (e # es) =
     (case overlay_entry m e of
        Inl x \<Rightarrow> Inl x
      | Inr e' \<Rightarrow> (case overlay_all m es of Inl x \<Rightarrow> Inl x | Inr es' \<Rightarrow> Inr (e' # es')))"

text \<open>The document that is dumped: the entries of a list are mutated in place; a dict or
  a string that could be iterated without an exception was empty and is unchanged.\<close>

definition overlay_doc :: "(string \<rightharpoonup> string) \<Rightarrow> json \<Rightarrow> exn + json" where
  "overlay_doc m d =
     (case py_iter d of
        Inl e \<Rightarrow> Inl e
      | Inr es \<Rightarrow>
          (case overlay_all m es of
             Inl e \<Rightarrow> Inl e
           | Inr es' \<Rightarrow> Inr (case d of JArr old \<Rightarrow> JArr es' | _ \<Rightarrow> d)))"

text \<open>The \<^verbatim>\<open>try\<close> block of \<^verbatim>\<open>save_registry_statuses\<close>.\<close>

definition save_body :: "state \<Rightarrow> (exn + unit) \<times> state" where
  "save_body st =
     (case read_registry st of
        (Inl e, st1) \<Rightarrow> (Inl e, st1)
      | (Inr disk_agents, st1) \<Rightarrow>
          (case overlay_doc (status_map (agents st1)) disk_agents of
             Inl e \<Rightarrow> (Inl e, st1)
           | Inr d \<Rightarrow>
               (case write_registry d st1 of
                  (Inl e, st2) \<Rightarrow> (Inl e, st2)
                | (Inr u, st2) \<Rightarrow> (Inr (), log_msg INFO Persisted st2))))"

text \<open>\<^verbatim>\<open>except Exception as e\<close>: every exception of the body is logged and dropped.\<close>

definition save_registry_statuses :: "state \<Rightarrow> (exn + unit) \<times> state" where
  "save_registry_statuses st =
     (case save_body st of
        (Inl e, st1) \<Rightarrow> (Inr (), log_msg ERROR (Error_saving e) st1)
      | (Inr u, st1) \<Rightarrow> (Inr (), st1))"

subsection \<open>Health probes\<close>

datatype response = Response (status_code: int) (body: "json option")

text \<open>The network as the probes of one round see it: \<^verbatim>\<open>await client.get(url, timeout=3.0)\<close>
  either raises (connection refused, timeout) or returns a response.\<close>

type_synonym network = "string \<Rightarrow> exn + response"

text \<open>\<^verbatim>\<open>response.json()\<close> raises on a body that is not JSON.\<close>

definition response_json :: "response \<Rightarrow> exn + json" where
  "response_json r = (case body r of None \<Rightarrow> Inl JSONDecodeError | Some j \<Rightarrow> Inr j)"

definition rstrip_slash :: "string \<Rightarrow> string" where
  "rstrip_slash s = rev (dropWhile (\<lambda>c. c = CHR ''/'') (rev s))"

definition health_url :: "agent \<Rightarrow> string" where
  "health_url a = rstrip_slash (url a) @ ''/health''"

text \<open>The inner \<^verbatim>\<open>try\<close> of \<^verbatim>\<open>health_check_agents\<close>: \<^verbatim>\<open>and\<close> does not evaluate
  \<^verbatim>\<open>json_body.get\<close> when the status code is not 200; any exception falls back to the
  status code alone.\<close>

definition is_healthy :: "response \<Rightarrow> bool" where
  "is_healthy r =
     (case response_json r of
        Inl e \<Rightarrow> status_code r = 200
      | Inr json_body \<Rightarrow>
          if status_code r = 200
          then (case json_get json_body ''status'' of
                  Inl e \<Rightarrow> status_code r = 200
                | Inr v \<Rightarrow> v = JStr ''healthy'')
          else False)"

text \<open>One turn of the loop of \<^verbatim>\<open>health_check_agents\<close>: the record with its new status,
  the log lines and the I/O events of the turn.\<close>

definition probe_agent ::
  "network \<Rightarrow> agent \<Rightarrow> agent \<times> (level \<times> message) list \<times> io_event list" where
  "probe_agent net a =
     (let u = health_url a;
          l = [(DEBUG, Checking_health (agent_id a) u)];
          t = [Probe_sent u, Probe_resolved u]
      in case net u of
           Inl exc \<Rightarrow>
             (a\<lparr>status := ''offline''\<rparr>, l @ [(DEBUG, Health_check_failed (agent_id a) exc)], t)
         | Inr r \<Rightarrow>
             (a\<lparr>status := (if is_healthy r then ''healthy'' else ''offline'')\<rparr>, l, t))"

fun sweep_agents ::
  "network \<Rightarrow> agent list \<Rightarrow> agent list \<times> (level \<times> message) list \<times> io_event list" where
  "sweep_agents net [] = ([], [], [])"
| "sweep_agents net (a # as) =
     (case probe_agent net a of
        (a', l, t) \<Rightarrow>
          (case sweep_agents net as of
             (as', ls, ts) \<Rightarrow> (a' # as', l @ ls, t @ ts)))"

text \<open>The \<^verbatim>\<open>async with\<close> block: the loop awaits each response before its next turn.\<close>

definition probe_all :: "network \<Rightarrow> state \<Rightarrow> state" where
  "probe_all net st =
     (case sweep_agents net (agents st) of
        (ags, ls, ts) \<Rightarrow>
          st\<lparr>agents := ags, logged := logged st @ ls, trace := trace st @ ts\<rparr>)"

definition health_check_agents :: "network \<Rightarrow> state \<Rightarrow> (exn + unit) \<times> state" where
  "health_check_agents net st =
     (let st1 = probe_all net st;
          st2 = (case save_registry_statuses st1 of
                   (Inl e, s) \<Rightarrow> log_msg WARNING (Failed_to_persist e) s
                 | (Inr u, s) \<Rightarrow> s)
      in (Inr (), log_msg INFO Health_checks_complete st2))"

subsection \<open>\<^verbatim>\<open>get_agent\<close> and \<^verbatim>\<open>check_agent_live_status\<close>\<close>

text \<open>\<^verbatim>\<open>get_agent\<close> returns a reference to the first record with the id: its position in
  \<^verbatim>\<open>_agents\<close>.\<close>

fun find_agent :: "agent list \<Rightarrow> string \<Rightarrow> nat option" where
  "find_agent [] i = None"
| "find_agent (a # as) i =
     (if agent_id a = i then Some 0 else map_option Suc (find_agent as i))"

definition get_agent :: "state \<Rightarrow> string \<Rightarrow> agent option" where
  "get_agent st i = map_option (\<lambda>k. agents st ! k) (find_agent (agents st) i)"

text \<open>The \<^verbatim>\<open>try\<close> blocks of \<^verbatim>\<open>check_agent_live_status\<close>, the same policy written a
  second time.\<close>

definition live_status :: "exn + response \<Rightarrow> string" where
  "live_status res =
     (case res of
        Inl e \<Rightarrow> ''offline''
      | Inr resp \<Rightarrow>
          (case response_json resp of
             Inl e \<Rightarrow> if status_code resp = 200 then ''healthy'' else ''offline''
           | Inr j \<Rightarrow>
               if status_code resp = 200
               then (case json_get j ''status'' of
                       Inl e \<Rightarrow> if status_code resp = 200 then ''healthy'' else ''offline''
                     | Inr v \<Rightarrow> if v = JStr ''healthy'' then ''healthy'' else ''offline'')
               else ''offline''))"

text \<open>The \<^verbatim>\<open>async with\<close> block of \<^verbatim>\<open>check_agent_live_status\<close> for the record at
  position \<^verbatim>\<open>k\<close>.\<close>

definition probe_one :: "network \<Rightarrow> string \<Rightarrow> nat \<Rightarrow> state \<Rightarrow> state" where
  "probe_one net i k st =
     (let a = agents st ! k;
          u = health_url a;
          res = net u;
          st1 = emit (Probe_resolved u) (emit (Probe_sent u) st);
          st2 = (case res of
                   Inl e \<Rightarrow> log_msg DEBUG (Live_check_error i e) st1
                 | Inr resp \<Rightarrow> st1)
      in st2\<lparr>agents := (agents st2)[k := a\<lparr>status := live_status res\<rparr>]\<rparr>)"

definition check_agent_live_status ::
  "network \<Rightarrow> state \<Rightarrow> string \<Rightarrow> (exn + string) \<times> state" where
  "check_agent_live_status net st i =
     (case find_agent (agents st) i of
        None \<Rightarrow> (Inr ''not_found'', st)
      | Some k \<Rightarrow>
          (let st1 = probe_one net i k st;
               st2 = (case save_registry_statuses st1 of
                        (Inl e, s) \<Rightarrow> s
                      | (Inr u, s) \<Rightarrow> s)
           in (Inr (status (agents st2 ! k)), st2)))"

subsection \<open>A small registry\<close>

text \<open>Two agents; the health endpoint of the first answers 200 with
  \<^verbatim>\<open>{"status": "healthy"}\<close>, the second times out.\<close>

definition entry_a :: json where
  "entry_a = JObj [(''id'', JStr ''a''), (''url'', JStr ''http://x''),
                   (''name'', JStr ''first'')]"

definition entry_b :: json where
  "entry_b = JObj [(''id'', JStr ''b''), (''url'', JStr ''http://y/'')]"

definition agent_a :: agent where
  "agent_a = \<lparr>agent_id = ''a'', url = ''http://x'', status = ''unknown'',
              extra = [(''name'', JStr ''first'')]\<rparr>"

definition agent_b :: agent where
  "agent_b = \<lparr>agent_id = ''b'', url = ''http://y/'', status = ''unknown'', extra = []\<rparr>"

definition two_agents :: state where
  "two_agents = \<lparr>agents = [agent_a, agent_b], registry_file = Doc (JArr [entry_a, entry_b]),
                 registry_text = json_dump (JArr [entry_a, entry_b]),
                 writable = True, logged = [], trace = []\<rparr>"

definition healthy_body :: json where
  "healthy_body = JObj [(''status'', JStr ''healthy'')]"

definition net_a_up :: network where
  "net_a_up u =
     (if u = ''http://x/health'' then Inr (Response 200 (Some healthy_body))
      else Inl TimeoutException)"

text \<open>A health endpoint that answers 204 with the healthy body, and one that answers 200
  with a body that is not JSON.\<close>

definition net_no_content :: network where
  "net_no_content u = Inr (Response 204 (Some healthy_body))"

definition net_plain_ok :: network where
  "net_plain_ok u = Inr (Response 200 None)"

text \<open>The same registry when the durable file has been removed.\<close>

definition two_agents_no_file :: state where
  "two_agents_no_file = two_agents\<lparr>registry_file := Missing, registry_text := []\<rparr>"

text \<open>The module state at start-up, before \<^verbatim>\<open>load_registry\<close> has run, and two more
  entries: one with a status of its own, one without a url.\<close>

definition fresh :: "disk_file \<Rightarrow> state" where
  "fresh f = \<lparr>agents = [], registry_file = f,
               registry_text = (case f of Doc d \<Rightarrow> json_dump d | _ \<Rightarrow> []),
               writable = True, logged = [], trace = []\<rparr>"

definition entry_c :: json where
  "entry_c = JObj [(''id'', JStr ''c''), (''url'', JStr ''http://z''),
                   (''status'', JStr ''healthy'')]"

definition entry_no_url :: json where
  "entry_no_url = JObj [(''id'', JStr ''d''), (''name'', JStr ''fourth'')]"

text \<open>The registry with a third entry on disk that is not loaded, and the registry with
  two loaded records of the same id.\<close>

definition three_on_disk :: state where
  "three_on_disk = two_agents\<lparr>registry_file := Doc (JArr [entry_a, entry_c, entry_b]),
                               registry_text := json_dump (JArr [entry_a, entry_c, entry_b])\<rparr>"



text \<open>
  A registry file written by hand on one line,
  \<^verbatim>\<open>[{"id":"c","url":"http://z","weight":1.0e2}]\<close>, whose only entry is not loaded;
  \<^verbatim>\<open>json.load\<close> reads the number as the float \<^verbatim>\<open>100.0\<close>. And a registry file with
  an entry that is a number.
\<close>

definition dq :: string where
  "dq = [CHR 0x22]"

definition nl :: string where
  "nl = [CHR 0x0A]"

definition entry_w :: json where
  "entry_w = JObj [(''id'', JStr ''c''), (''url'', JStr ''http://z''),
                   (''weight'', JFloat ''100.0'')]"

definition compact_on_disk :: state where
  "compact_on_disk =
     two_agents\<lparr>registry_file := Doc (JArr [entry_w]),
                registry_text :=
                  ''[{'' @ dq @ ''id'' @ dq @ '':'' @ dq @ ''c'' @ dq @ '','' @
                  dq @ ''url'' @ dq @ '':'' @ dq @ ''http://z'' @ dq @ '','' @
                  dq @ ''weight'' @ dq @ '':1.0e2}]''\<rparr>"

definition number_on_disk :: state where
  "number_on_disk =
     two_agents\<lparr>registry_file := Doc (JArr [entry_a, JNum 5]),
                registry_text := json_dump (JArr [entry_a, JNum 5])\<rparr>"

section \<open>Properties\<close>

subsection \<open>What persisting and probing leave alone\<close>

lemma save_body_frame:
  "agents (snd (save_body st)) = agents st \<and> writable (snd (save_body st)) = writable st"
  by (auto simp: save_body_def read_registry_def write_registry_def emit_def log_msg_def
      split: disk_file.splits sum.splits prod.splits)

lemma save_returns: "fst (save_registry_statuses st) = Inr ()"
  by (simp add: save_registry_statuses_def split: prod.splits sum.splits)

lemma save_agents: "agents (snd (save_registry_statuses st)) = agents st"
  using save_body_frame [of st]
  by (cases "save_body st") (auto simp: save_registry_statuses_def log_msg_def split: sum.splits)

lemma save_writable: "writable (snd (save_registry_statuses st)) = writable st"
  using save_body_frame [of st]
  by (cases "save_body st") (auto simp: save_registry_statuses_def log_msg_def split: sum.splits)

lemma sweep_agents_fst:
  "fst (sweep_agents net as) = map (\<lambda>a. fst (probe_agent net a)) as"
  by (induction as) (auto split: prod.splits)

lemma sweep_agents_trace:
  "snd (snd (sweep_agents net as)) =
     concat (map (\<lambda>a. [Probe_sent (health_url a), Probe_resolved (health_url a)]) as)"
  by (induction as) (auto simp: probe_agent_def Let_def split: prod.splits sum.splits)

lemma probe_agent_status:
  "fst (probe_agent net a) = a\<lparr>status := live_status (net (health_url a))\<rparr>"
  by (auto simp: probe_agent_def live_status_def is_healthy_def Let_def split: sum.splits)

lemma probe_all_agents:
  "agents (probe_all net st) =
     map (\<lambda>a. a\<lparr>status := live_status (net (health_url a))\<rparr>) (agents st)"
  using sweep_agents_fst [of net "agents st"]
  by (cases "sweep_agents net (agents st)") (simp add: probe_all_def probe_agent_status)

lemma probe_all_frame:
  "registry_file (probe_all net st) = registry_file st \<and>
   writable (probe_all net st) = writable st"
  by (cases "sweep_agents net (agents st)") (simp add: probe_all_def)

lemma probe_all_text: "registry_text (probe_all net st) = registry_text st"
  by (cases "sweep_agents net (agents st)") (simp add: probe_all_def)

lemma probe_all_trace:
  "trace (probe_all net st) = trace st @
     concat (map (\<lambda>a. [Probe_sent (health_url a), Probe_resolved (health_url a)]) (agents st))"
  using sweep_agents_trace [of net "agents st"]
  by (cases "sweep_agents net (agents st)") (simp add: probe_all_def)

lemma health_check_agents_eq:
  "health_check_agents net st =
     (Inr (), log_msg INFO Health_checks_complete
                (snd (save_registry_statuses (probe_all net st))))"
proof -
  obtain r s where sv: "save_registry_statuses (probe_all net st) = (r, s)"
    by (cases "save_registry_statuses (probe_all net st)") auto
  have "r = Inr ()" using save_returns [of "probe_all net st"] sv by simp
  then show ?thesis
    using sv by (simp add: health_check_agents_def Let_def)
qed

lemma check_agent_live_status_eq:
  "find_agent (agents st) i = Some k \<Longrightarrow>
   check_agent_live_status net st i =
     (Inr (status (agents (probe_one net i k st) ! k)),
      snd (save_registry_statuses (probe_one net i k st)))"
proof -
  assume f: "find_agent (agents st) i = Some k"
  obtain r s where sv: "save_registry_statuses (probe_one net i k st) = (r, s)"
    by (cases "save_registry_statuses (probe_one net i k st)") auto
  have "agents s = agents (probe_one net i k st)"
    using save_agents [of "probe_one net i k st"] sv by simp
  then show ?thesis
    using f sv by (cases r) (simp_all add: check_agent_live_status_def Let_def)
qed

lemma find_agent_Some:
  "find_agent as i = Some k \<Longrightarrow>
     k < length as \<and> agent_id (as ! k) = i \<and> (\<forall>j<k. agent_id (as ! j) \<noteq> i)"
proof (induction as arbitrary: k)
  case Nil
  then show ?case by simp
next
  case (Cons a as)
  show ?case
  proof (cases "agent_id a = i")
    case True
    with Cons.prems show ?thesis by simp
  next
    case False
    with Cons.prems obtain k' where k': "find_agent as i = Some k'" "k = Suc k'"
      by auto
    from Cons.IH [OF k'(1)] k'(2) False show ?thesis
      by (auto simp: nth_Cons split: nat.splits)
  qed
qed

lemma find_agent_None: "find_agent as i = None \<longleftrightarrow> i \<notin> agent_id ` set as"
  by (induction as) auto

lemma probe_one_agents:
  "agents (probe_one net i k st) =
     (agents st)[k := (agents st ! k)\<lparr>status := live_status (net (health_url (agents st ! k)))\<rparr>]"
  by (auto simp: probe_one_def Let_def emit_def log_msg_def split: sum.splits)

lemma probe_one_frame:
  "registry_file (probe_one net i k st) = registry_file st \<and>
   writable (probe_one net i k st) = writable st"
  by (auto simp: probe_one_def Let_def emit_def log_msg_def split: sum.splits)

lemma live_status_cases:
  "live_status (Inl e) = ''offline''"
  "c \<noteq> 200 \<Longrightarrow> live_status (Inr (Response c b)) = ''offline''"
  "live_status (Inr (Response 200 (Some (JObj kvs)))) =
     (if map_of kvs ''status'' = Some (JStr ''healthy'') then ''healthy'' else ''offline'')"
  by (auto simp: live_status_def response_json_def json_get_def split: option.splits)

lemmas eval_defs =
  two_agents_def agent_a_def agent_b_def entry_a_def entry_b_def net_a_up_def healthy_body_def
  health_check_agents_eq check_agent_live_status_def probe_all_def probe_agent_def probe_one_def
  health_url_def rstrip_slash_def is_healthy_def live_status_def response_json_def json_get_def
  save_registry_statuses_def save_body_def read_registry_def write_registry_def
  overlay_doc_def overlay_entry_def status_lookup_def hashable_def set_status_def status_map_def py_iter_def
  log_msg_def emit_def Let_def

subsection \<open>Classification of a probe\<close>

text \<open>
  C1 (as amended). For every probe of the sweep and of the live query the resulting
  status is: a transport failure, a timeout or a status code other than 200 gives
  \<^verbatim>\<open>offline\<close>; status code 200 with a body that parses to a JSON object gives
  \<^verbatim>\<open>healthy\<close> when the object's \<^verbatim>\<open>status\<close> field is the string \<^verbatim>\<open>healthy\<close> and
  \<^verbatim>\<open>offline\<close> when the field is missing or different. The live query returns and stores
  the same status as the sweep stores for the record it finds.
\<close>

theorem probe_classification:
  assumes "k < length (agents st)"
  shows "let res = net (health_url (agents st ! k));
             s = status (agents (snd (health_check_agents net st)) ! k)
         in (find_agent (agents st) i = Some k \<longrightarrow>
               fst (check_agent_live_status net st i) = Inr s \<and>
               status (agents (snd (check_agent_live_status net st i)) ! k) = s) \<and>
            (\<forall>e. res = Inl e \<longrightarrow> s = ''offline'') \<and>
            (\<forall>c b. res = Inr (Response c b) \<and> c \<noteq> 200 \<longrightarrow> s = ''offline'') \<and>
            (\<forall>kvs. res = Inr (Response 200 (Some (JObj kvs))) \<longrightarrow>
               s = (if map_of kvs ''status'' = Some (JStr ''healthy'')
                    then ''healthy'' else ''offline''))"
proof -
  define res where "res = net (health_url (agents st ! k))"
  define s where "s = status (agents (snd (health_check_agents net st)) ! k)"
  have s: "s = live_status res"
    using assms
    by (simp add: s_def res_def health_check_agents_eq log_msg_def save_agents probe_all_agents)
  have live: "fst (check_agent_live_status net st i) = Inr s \<and>
      status (agents (snd (check_agent_live_status net st i)) ! k) = s"
    if "find_agent (agents st) i = Some k"
    using that assms s
    by (simp add: res_def check_agent_live_status_eq save_agents probe_one_agents)
  have "(find_agent (agents st) i = Some k \<longrightarrow>
               fst (check_agent_live_status net st i) = Inr s \<and>
               status (agents (snd (check_agent_live_status net st i)) ! k) = s) \<and>
            (\<forall>e. res = Inl e \<longrightarrow> s = ''offline'') \<and>
            (\<forall>c b. res = Inr (Response c b) \<and> c \<noteq> 200 \<longrightarrow> s = ''offline'') \<and>
            (\<forall>kvs. res = Inr (Response 200 (Some (JObj kvs))) \<longrightarrow>
               s = (if map_of kvs ''status'' = Some (JStr ''healthy'')
                    then ''healthy'' else ''offline''))"
    using live s by (auto simp: live_status_cases)
  then show ?thesis
    by (simp add: Let_def res_def s_def)
qed

theorem probe_classification_witness:
  "status (agents (snd (health_check_agents net_a_up two_agents)) ! 0) = ''healthy'' \<and>
   fst (check_agent_live_status net_a_up two_agents ''a'') = Inr ''healthy'' \<and>
   status (agents (snd (health_check_agents net_a_up two_agents)) ! 1) = ''offline'' \<and>
   fst (check_agent_live_status net_a_up two_agents ''b'') = Inr ''offline''"
proof -
  have a: "(0::nat) < length (agents two_agents)" "find_agent (agents two_agents) ''a'' = Some 0"
    "net_a_up (health_url (agents two_agents ! 0)) =
       Inr (Response 200 (Some (JObj [(''status'', JStr ''healthy'')])))"
    by (simp_all add: two_agents_def agent_a_def agent_b_def net_a_up_def health_url_def
        rstrip_slash_def healthy_body_def)
  have b: "(1::nat) < length (agents two_agents)" "find_agent (agents two_agents) ''b'' = Some 1"
    "net_a_up (health_url (agents two_agents ! 1)) = Inl TimeoutException"
    by (simp_all add: two_agents_def agent_a_def agent_b_def net_a_up_def health_url_def
        rstrip_slash_def)
  show ?thesis
    using probe_classification [OF a(1), of net_a_up "''a''"]
      probe_classification [OF b(1), of net_a_up "''b''"] a(2,3) b(2,3)
    by (simp add: Let_def)
qed

text \<open>The claim as stated fails twice: 204 with the healthy body is \<^verbatim>\<open>offline\<close>, and
  200 with a body that is not JSON is \<^verbatim>\<open>healthy\<close>, in the sweep and in the live query.\<close>

theorem probe_classification_counterexample:
  "fst (check_agent_live_status net_no_content two_agents ''a'') = Inr ''offline'' \<and>
   map status (agents (snd (health_check_agents net_no_content two_agents))) =
     [''offline'', ''offline''] \<and>
   fst (check_agent_live_status net_plain_ok two_agents ''a'') = Inr ''healthy'' \<and>
   map status (agents (snd (health_check_agents net_plain_ok two_agents))) =
     [''healthy'', ''healthy'']"
  by (simp add: eval_defs net_no_content_def net_plain_ok_def)

subsection \<open>A failed flush stays inside \<^verbatim>\<open>save_registry_statuses\<close>\<close>

lemma save_body_failure:
  "(\<forall>d. registry_file st \<noteq> Doc d) \<or> \<not> writable st \<Longrightarrow> \<exists>e. fst (save_body st) = Inl e"
  by (auto simp: save_body_def read_registry_def write_registry_def emit_def
      split: disk_file.splits sum.splits prod.splits)

lemma save_body_failure_logged:
  "fst (save_body st) = Inl e \<Longrightarrow> logged (snd (save_body st)) = logged st"
  by (auto simp: save_body_def read_registry_def write_registry_def emit_def log_msg_def
      split: disk_file.splits sum.splits prod.splits if_splits)

lemma save_failure_logged:
  assumes "fst (save_body st) = Inl e"
  shows "logged (snd (save_registry_statuses st)) = logged st @ [(ERROR, Error_saving e)]"
  using assms save_body_failure_logged [OF assms]
  by (cases "save_body st") (simp add: save_registry_statuses_def log_msg_def)

lemma save_failure_error:
  assumes "(\<forall>d. registry_file st \<noteq> Doc d) \<or> \<not> writable st"
  shows "\<exists>e. logged (snd (save_registry_statuses st)) = logged st @ [(ERROR, Error_saving e)]"
  using save_body_failure [OF assms] save_failure_logged by blast

text \<open>
  C6. When the read of the durable file fails (the file is missing, unreadable or not
  JSON) or the write fails, \<^verbatim>\<open>save_registry_statuses\<close> logs the error and returns
  normally; the sweep and the live query return normally as well, the error is in their
  log, and the records keep the statuses the probes have just given them.
\<close>

theorem persistence_failure_contained:
  assumes "(\<forall>d. registry_file st \<noteq> Doc d) \<or> \<not> writable st"
  shows "fst (save_registry_statuses st) = Inr () \<and>
         (\<exists>e. logged (snd (save_registry_statuses st)) = logged st @ [(ERROR, Error_saving e)]) \<and>
         fst (health_check_agents net st) = Inr () \<and>
         (\<exists>e. (ERROR, Error_saving e) \<in> set (logged (snd (health_check_agents net st)))) \<and>
         agents (snd (health_check_agents net st)) =
           map (\<lambda>a. a\<lparr>status := live_status (net (health_url a))\<rparr>) (agents st) \<and>
         (find_agent (agents st) i = Some k \<longrightarrow>
            fst (check_agent_live_status net st i) =
              Inr (live_status (net (health_url (agents st ! k)))) \<and>
            (\<exists>e. (ERROR, Error_saving e) \<in> set (logged (snd (check_agent_live_status net st i)))) \<and>
            agents (snd (check_agent_live_status net st i)) =
              (agents st)[k := (agents st ! k)
                 \<lparr>status := live_status (net (health_url (agents st ! k)))\<rparr>])"
proof -
  have sweep_fail: "(\<forall>d. registry_file (probe_all net st) \<noteq> Doc d) \<or> \<not> writable (probe_all net st)"
    using assms by (simp add: probe_all_frame)
  have "\<exists>e. (ERROR, Error_saving e) \<in> set (logged (snd (health_check_agents net st)))"
    using save_failure_error [OF sweep_fail]
    by (auto simp: health_check_agents_eq log_msg_def)
  moreover have "fst (check_agent_live_status net st i) =
              Inr (live_status (net (health_url (agents st ! k)))) \<and>
            (\<exists>e. (ERROR, Error_saving e) \<in> set (logged (snd (check_agent_live_status net st i)))) \<and>
            agents (snd (check_agent_live_status net st i)) =
              (agents st)[k := (agents st ! k)
                 \<lparr>status := live_status (net (health_url (agents st ! k)))\<rparr>]"
    if f: "find_agent (agents st) i = Some k"
  proof -
    have live_fail: "(\<forall>d. registry_file (probe_one net i k st) \<noteq> Doc d) \<or>
        \<not> writable (probe_one net i k st)"
      using assms by (simp add: probe_one_frame)
    have "k < length (agents st)" using find_agent_Some [OF f] by simp
    then show ?thesis
      using save_failure_error [OF live_fail]
      by (auto simp: check_agent_live_status_eq [OF f] save_agents probe_one_agents)
  qed
  ultimately show ?thesis
    using save_failure_error [OF assms]
    by (simp add: save_returns health_check_agents_eq log_msg_def save_agents probe_all_agents)
qed
theorem persistence_failure_contained_witness:
  "registry_file two_agents_no_file = Missing \<and>
   fst (health_check_agents net_a_up two_agents_no_file) = Inr () \<and>
   map status (agents (snd (health_check_agents net_a_up two_agents_no_file))) =
     [''healthy'', ''offline''] \<and>
   find_agent (agents two_agents_no_file) ''a'' = Some 0 \<and>
   fst (check_agent_live_status net_a_up two_agents_no_file ''a'') = Inr ''healthy''"
proof -
  have h: "(\<forall>d. registry_file two_agents_no_file \<noteq> Doc d) \<or> \<not> writable two_agents_no_file"
    by (simp add: two_agents_no_file_def two_agents_def)
  have f: "find_agent (agents two_agents_no_file) ''a'' = Some 0"
    by (simp add: two_agents_no_file_def two_agents_def agent_a_def)
  have u: "net_a_up (health_url (agents two_agents_no_file ! 0)) =
      Inr (Response 200 (Some healthy_body))"
    "net_a_up (health_url (agents two_agents_no_file ! 1)) = Inl TimeoutException"
    by (simp_all add: two_agents_no_file_def two_agents_def agent_a_def agent_b_def net_a_up_def
        health_url_def rstrip_slash_def)
  have l: "live_status (Inr (Response 200 (Some healthy_body))) = ''healthy''"
    "live_status (Inl TimeoutException) = ''offline''"
    by (simp_all add: live_status_def response_json_def json_get_def healthy_body_def)
  have ags: "agents two_agents_no_file = [agent_a, agent_b]"
    by (simp add: two_agents_no_file_def two_agents_def)
  show ?thesis
    using persistence_failure_contained [OF h, of net_a_up "''a''" 0] h f u l
    by (simp add: two_agents_no_file_def two_agents_def health_url_def rstrip_slash_def
        agent_a_def agent_b_def net_a_up_def)
qed

subsection \<open>The live query\<close>

lemma live_status_values: "live_status res \<in> {''healthy'', ''offline''}"
  by (auto simp: live_status_def split: sum.splits)

lemma check_agent_live_status_total:
  "\<exists>s st'. check_agent_live_status net st i = (Inr s, st') \<and>
     s \<in> {''healthy'', ''offline'', ''not_found''}"
proof (cases "find_agent (agents st) i")
  case None
  then show ?thesis by (simp add: check_agent_live_status_def)
next
  case (Some k)
  have "k < length (agents st)" using find_agent_Some [OF Some] by simp
  then show ?thesis
    using live_status_values [of "net (health_url (agents st ! k))"]
    by (auto simp: check_agent_live_status_eq [OF Some] probe_one_agents)
qed

lemma check_agent_live_status_absent:
  "i \<notin> agent_id ` set (agents st) \<Longrightarrow>
     check_agent_live_status net st i = (Inr ''not_found'', st) \<and> get_agent st i = None"
  using find_agent_None [of "agents st" i]
  by (simp add: check_agent_live_status_def get_agent_def)

text \<open>
  C7. The live query always returns one of \<^verbatim>\<open>healthy\<close>, \<^verbatim>\<open>offline\<close> and
  \<^verbatim>\<open>not_found\<close> and never raises, and an unknown id is answered without any I/O
  (the two lemmas above). A probe whose body is bad is not classified \<^verbatim>\<open>offline\<close>,
  though: the record \<^verbatim>\<open>a\<close> is registered, its health endpoint answers 200 with a body
  that is not JSON, and the query returns \<^verbatim>\<open>healthy\<close>.
\<close>

theorem live_status_bad_body:
  "fst (check_agent_live_status net_plain_ok two_agents ''a'') = Inr ''healthy''"
  by (simp add: eval_defs net_plain_ok_def)

subsection \<open>Order of the probes within a sweep\<close>

lemma save_trace:
  "trace (snd (save_registry_statuses st)) = trace st @ [File_open_read] \<or>
   trace (snd (save_registry_statuses st)) = trace st @ [File_open_read, File_open_write]"
  by (auto simp: save_registry_statuses_def save_body_def read_registry_def write_registry_def
      emit_def log_msg_def split: disk_file.splits sum.splits prod.splits)

text \<open>
  C9 (as amended). Within one sweep the probes are issued one after the other in registry
  order: the probe of a record is sent and resolved (by a response, an error or a
  timeout) before the probe of the next record is sent, every record is probed whatever
  the outcome of the earlier probes, and the durable file is opened only after the last
  probe has resolved.
\<close>

theorem sweep_probes_in_sequence:
  "\<exists>w. trace (snd (health_check_agents net st)) =
          trace st @
          concat (map (\<lambda>a. [Probe_sent (health_url a), Probe_resolved (health_url a)])
                    (agents st)) @
          File_open_read # w \<and>
        (w = [] \<or> w = [File_open_write])"
  using save_trace [of "probe_all net st"]
  by (auto simp: health_check_agents_eq log_msg_def probe_all_trace)

theorem sweep_probes_in_sequence_witness:
  "\<exists>w. trace (snd (health_check_agents net_a_up two_agents)) =
          [Probe_sent ''http://x/health'', Probe_resolved ''http://x/health'',
           Probe_sent ''http://y/health'', Probe_resolved ''http://y/health'',
           File_open_read] @ w"
proof -
  have "trace two_agents = []" "agents two_agents = [agent_a, agent_b]"
    "health_url agent_a = ''http://x/health''" "health_url agent_b = ''http://y/health''"
    by (simp_all add: two_agents_def agent_a_def agent_b_def health_url_def rstrip_slash_def)
  then show ?thesis
    using sweep_probes_in_sequence [of net_a_up two_agents] by auto
qed

text \<open>The claim as stated fails: the probes are not all sent before the first result is
  awaited. With two records the probe of the first is resolved before the probe of the
  second is sent.\<close>

theorem sweep_probes_in_sequence_counterexample:
  "trace (snd (health_check_agents net_a_up two_agents)) =
     [Probe_sent ''http://x/health'', Probe_resolved ''http://x/health'',
      Probe_sent ''http://y/health'', Probe_resolved ''http://y/health'',
      File_open_read, File_open_write]"
  by (simp add: eval_defs)

subsection \<open>Loading the registry\<close>

lemma invalid_entry_object:
  "invalid_entry (JObj kvs) = Inr (''id'' \<notin> fst ` set kvs \<or> ''url'' \<notin> fst ` set kvs)"
  by (simp add: invalid_entry_def py_contains_def)

lemma construct_agent_Inr:
  assumes "construct_agent e = Inr a"
  shows "\<exists>kvs. e = JObj kvs \<and> Agent kvs = Inr a \<and>
           map_of kvs ''id'' = Some (JStr (agent_id a)) \<and>
           map_of kvs ''url'' = Some (JStr (url a)) \<and> status a = ''unknown''"
  using assms
  by (auto simp: construct_agent_def Agent_def split: json.splits option.splits)

lemma load_entries_status:
  "load_entries ds st = (r, s) \<Longrightarrow> a \<in> set (agents s) \<Longrightarrow>
     a \<in> set (agents st) \<or> status a = ''unknown''"
proof (induction ds st arbitrary: r s rule: load_entries.induct)
  case (1 st)
  then show ?case by simp
next
  case (2 d ds st)
  show ?case
  proof (cases "invalid_entry d")
    case (Inl e)
    with "2.prems" show ?thesis by simp
  next
    case (Inr skip)
    show ?thesis
    proof (cases skip)
      case True
      with Inr "2.prems" "2.IH"(1) [OF Inr, of r s] show ?thesis
        by (simp add: skip_entry_def log_msg_def)
    next
      case False
      show ?thesis
      proof (cases "construct_agent d")
        case (Inl e)
        with Inr False "2.prems" show ?thesis by simp
      next
        case c: (Inr b)
        from construct_agent_Inr [OF c] have "status b = ''unknown''" by blast
        with Inr False c "2.prems" "2.IH"(2) [OF Inr _ c, of r s] show ?thesis
          by auto
      qed
    qed
  qed
qed

lemma load_entries_frame:
  "registry_file (snd (load_entries es st)) = registry_file st \<and>
   writable (snd (load_entries es st)) = writable st \<and>
   trace (snd (load_entries es st)) = trace st"
  by (induction es st rule: load_entries.induct)
     (auto simp: skip_entry_def log_msg_def split: sum.splits)

lemma load_entries_agents:
  "load_entries es st = (Inr (), st') \<Longrightarrow>
     map Inr (agents st') =
       map Inr (agents st) @ map construct_agent (filter (\<lambda>e. invalid_entry e = Inr False) es)"
proof (induction es st rule: load_entries.induct)
  case (1 st)
  then show ?case by simp
next
  case (2 d ds st)
  show ?case
  proof (cases "invalid_entry d")
    case (Inl e)
    with "2.prems" show ?thesis by simp
  next
    case (Inr skip)
    show ?thesis
    proof (cases skip)
      case True
      with Inr "2.prems" "2.IH"(1) [OF Inr] show ?thesis
        by (simp add: skip_entry_def log_msg_def)
    next
      case False
      show ?thesis
      proof (cases "construct_agent d")
        case (Inl e)
        with Inr False "2.prems" show ?thesis by simp
      next
        case (Inr a)
        with \<open>invalid_entry d = Inr skip\<close> False "2.prems"
          "2.IH"(2) [OF \<open>invalid_entry d = Inr skip\<close> _ Inr]
        show ?thesis by simp
      qed
    qed
  qed
qed

lemma load_entries_total:
  assumes "\<forall>e\<in>set es. \<exists>b. invalid_entry e = Inr b"
    and "\<forall>e\<in>set es. invalid_entry e = Inr False \<longrightarrow> (\<exists>a. construct_agent e = Inr a)"
  shows "fst (load_entries es st) = Inr () \<and>
         logged (snd (load_entries es st)) =
           logged st @ map (\<lambda>e. (WARNING, Skipping_invalid_entry e))
                         (filter (\<lambda>e. invalid_entry e = Inr True) es)"
  using assms
proof (induction es arbitrary: st)
  case Nil
  then show ?case by simp
next
  case (Cons d ds)
  from Cons.prems(1) obtain b where b: "invalid_entry d = Inr b" by auto
  show ?case
  proof (cases b)
    case True
    with b Cons.IH [of "skip_entry d st"] Cons.prems show ?thesis
      by (simp add: skip_entry_def log_msg_def)
  next
    case False
    with b Cons.prems(2) obtain a where a: "construct_agent d = Inr a" by auto
    with b False Cons.IH [of "st\<lparr>agents := agents st @ [a]\<rparr>"] Cons.prems show ?thesis
      by simp
  qed
qed

lemma invalid_entry_error: "invalid_entry d = Inl e \<Longrightarrow> e = TypeError"
  by (auto simp: invalid_entry_def py_contains_def split: json.splits if_splits)

lemma construct_agent_error: "construct_agent d = Inl e \<Longrightarrow> e = TypeError \<or> e = ValidationError"
  by (auto simp: construct_agent_def Agent_def Let_def split: json.splits option.splits)

lemma load_entries_error:
  "fst (load_entries es st) = Inl e \<Longrightarrow> e = TypeError \<or> e = ValidationError"
proof (induction es st rule: load_entries.induct)
  case (1 st)
  then show ?case by simp
next
  case (2 d ds st)
  then show ?case
    by (auto split: sum.splits if_splits dest: invalid_entry_error construct_agent_error)
qed

lemma load_registry_array:
  assumes "registry_file st = Doc (JArr es)"
  shows "load_registry st =
     (case load_entries es ((emit File_open_read st)\<lparr>agents := []\<rparr>) of
        (Inl e, s) \<Rightarrow> (Inl e, s)
      | (Inr u, s) \<Rightarrow> (Inr (), log_msg INFO (Loaded (length (agents s))) s))"
proof (cases "load_entries es ((emit File_open_read st)\<lparr>agents := []\<rparr>)")
  case (Pair r s)
  show ?thesis
  proof (cases r)
    case (Inl e)
    with Pair load_entries_error [of es "(emit File_open_read st)\<lparr>agents := []\<rparr>" e]
    have "e \<noteq> FileNotFoundError" by auto
    with Pair Inl assms show ?thesis
      by (simp add: load_registry_def load_body_def read_registry_def py_iter_def)
  next
    case (Inr u)
    with Pair assms show ?thesis
      by (simp add: load_registry_def load_body_def read_registry_def py_iter_def)
  qed
qed

lemmas load_eval =
  fresh_def entry_a_def entry_b_def entry_c_def entry_no_url_def
  load_registry_def load_body_def read_registry_def py_iter_def invalid_entry_def
  py_contains_def construct_agent_def Agent_def skip_entry_def log_msg_def emit_def
  list_agents_def Let_def

text \<open>
  C2. After a load that completes, and before any probe, the status of every loaded
  record is \<^verbatim>\<open>unknown\<close>, whatever the durable file holds, in particular whatever
  \<^verbatim>\<open>status\<close> its entries carry: \<^verbatim>\<open>load_registry\<close> builds every record with the
  \<^verbatim>\<open>Agent\<close> constructor and sets no status itself.
\<close>

theorem load_starts_unknown:
  assumes "fst (load_registry st) = Inr ()"
  shows "\<forall>a\<in>set (list_agents (snd (load_registry st))). status a = ''unknown''"
proof (cases "registry_file st")
  case Missing
  then show ?thesis
    by (simp add: load_registry_def load_body_def read_registry_def list_agents_def log_msg_def)
next
  case Unreadable
  with assms show ?thesis
    by (simp add: load_registry_def load_body_def read_registry_def)
next
  case Invalid
  with assms show ?thesis
    by (simp add: load_registry_def load_body_def read_registry_def)
next
  case (Doc d)
  let ?st0 = "(emit File_open_read st)\<lparr>agents := []\<rparr>"
  show ?thesis
  proof (cases "py_iter d")
    case (Inl e)
    then have "e = TypeError"
      by (auto simp: py_iter_def split: json.splits)
    with Inl Doc assms show ?thesis
      by (simp add: load_registry_def load_body_def read_registry_def)
  next
    case (Inr ds)
    obtain r s where ld: "load_entries ds ?st0 = (r, s)"
      by (cases "load_entries ds ?st0") auto
    show ?thesis
    proof (cases r)
      case (Inl e)
      with ld load_entries_error [of ds ?st0 e] have "e \<noteq> FileNotFoundError" by auto
      with Inl ld Inr Doc assms show ?thesis
        by (simp add: load_registry_def load_body_def read_registry_def)
    next
      case u: (Inr u)
      with ld Inr Doc
      have "agents (snd (load_registry st)) = agents s"
        by (simp add: load_registry_def load_body_def read_registry_def log_msg_def)
      moreover have "\<forall>a\<in>set (agents s). status a = ''unknown''"
        using load_entries_status [OF ld] by auto
      ultimately show ?thesis by (simp add: list_agents_def)
    qed
  qed
qed

theorem load_starts_unknown_witness:
  "fst (load_registry (fresh (Doc (JArr [entry_a, entry_c])))) = Inr () \<and>
   map agent_id (list_agents (snd (load_registry (fresh (Doc (JArr [entry_a, entry_c])))))) =
     [''a'', ''c''] \<and>
   status (list_agents (snd (load_registry (fresh (Doc (JArr [entry_a, entry_c]))))) ! 1) =
     ''unknown''"
proof -
  let ?st = "fresh (Doc (JArr [entry_a, entry_c]))"
  have l: "fst (load_registry ?st) = Inr ()"
    by (simp add: load_eval)
  have ids: "map agent_id (list_agents (snd (load_registry ?st))) = [''a'', ''c'']"
    by (simp add: load_eval)
  have "length (list_agents (snd (load_registry ?st))) = 2"
    by (simp add: load_eval)
  then have "list_agents (snd (load_registry ?st)) ! 1 \<in> set (list_agents (snd (load_registry ?st)))"
    by simp
  with load_starts_unknown [OF l]
  have "status (list_agents (snd (load_registry ?st)) ! 1) = ''unknown''"
    by (rule bspec)
  with l ids show ?thesis by simp
qed

text \<open>
  C3 (as amended). If the durable file is missing, the load is not fatal: it returns
  normally, the registry is empty and an error is logged. A file that exists and cannot be
  opened, or whose content is not JSON, makes \<^verbatim>\<open>load_registry\<close> raise:
  only \<^verbatim>\<open>FileNotFoundError\<close> is caught.
\<close>

theorem load_missing_file:
  "(registry_file st = Missing \<longrightarrow>
      fst (load_registry st) = Inr () \<and>
      list_agents (snd (load_registry st)) = [] \<and>
      logged (snd (load_registry st)) = logged st @ [(ERROR, Registry_file_not_found)]) \<and>
   (registry_file st = Unreadable \<longrightarrow>
      load_registry st = (Inl PermissionError, emit File_open_read st)) \<and>
   (registry_file st = Invalid \<longrightarrow>
      load_registry st = (Inl JSONDecodeError, emit File_open_read st))"
  by (simp add: load_registry_def load_body_def read_registry_def log_msg_def emit_def
      list_agents_def)

theorem load_missing_file_witness:
  "registry_file two_agents_no_file = Missing \<and>
   fst (load_registry two_agents_no_file) = Inr () \<and>
   list_agents (snd (load_registry two_agents_no_file)) = [] \<and>
   logged (snd (load_registry two_agents_no_file)) = [(ERROR, Registry_file_not_found)]"
  using load_missing_file [of two_agents_no_file]
  by (simp add: two_agents_no_file_def two_agents_def)

text \<open>The claim as stated fails for an unreadable source: the exception reaches the
  caller.\<close>

theorem load_missing_file_counterexample:
  "fst (load_registry (fresh Unreadable)) = Inl PermissionError \<and>
   fst (load_registry (fresh Invalid)) = Inl JSONDecodeError"
  by (simp add: load_eval)

lemma load_entries_abort:
  assumes "\<forall>e\<in>set es. \<exists>kvs. e = JObj kvs"
    and "fst (load_entries es st) = Inl x"
  shows "\<exists>d\<in>set es. invalid_entry d = Inr False \<and> construct_agent d = Inl x"
  using assms
proof (induction es arbitrary: st)
  case Nil
  then show ?case by simp
next
  case (Cons d ds)
  from Cons.prems(1) obtain kvs where d: "d = JObj kvs" by auto
  define skip where "skip = (''id'' \<notin> fst ` set kvs \<or> ''url'' \<notin> fst ` set kvs)"
  have inv: "invalid_entry d = Inr skip"
    by (simp add: d skip_def invalid_entry_object)
  show ?case
  proof (cases skip)
    case True
    with inv Cons.prems have "fst (load_entries ds (skip_entry d st)) = Inl x" by simp
    with Cons.IH [of "skip_entry d st"] Cons.prems(1) show ?thesis by auto
  next
    case False
    show ?thesis
    proof (cases "construct_agent d")
      case (Inl e)
      with inv False Cons.prems(2) have "e = x" by simp
      with Inl inv False show ?thesis by auto
    next
      case (Inr a)
      with inv False Cons.prems
      have "fst (load_entries ds (st\<lparr>agents := agents st @ [a]\<rparr>)) = Inl x" by simp
      with Cons.IH [of "st\<lparr>agents := agents st @ [a]\<rparr>"] Cons.prems(1) show ?thesis by auto
    qed
  qed
qed

text \<open>
  C5 (as amended). For every sequence of candidate entries that are JSON objects, the
  load skips, with a warning, every entry that lacks the key \<^verbatim>\<open>id\<close> or the key
  \<^verbatim>\<open>url\<close>, and no such entry aborts the load: the load aborts only when the
  \<^verbatim>\<open>Agent\<close> constructor raises on an entry that carries both keys. When it completes,
  no skipped entry has a record in \<^verbatim>\<open>list_agents\<close>, the records are those of the other
  entries in file order, and their number is the number of entries minus the number of
  skipped entries.
\<close>

theorem load_skips_invalid_entries:
  assumes "registry_file st = Doc (JArr es)"
    and "\<forall>e\<in>set es. \<exists>kvs. e = JObj kvs"
  shows "(\<forall>x. fst (load_registry st) = Inl x \<longrightarrow>
            (\<exists>d\<in>set es. invalid_entry d = Inr False \<and> construct_agent d = Inl x)) \<and>
         ((\<forall>d\<in>set es. invalid_entry d = Inr False \<longrightarrow> (\<exists>a. construct_agent d = Inr a)) \<longrightarrow>
            fst (load_registry st) = Inr ()) \<and>
         (fst (load_registry st) = Inr () \<longrightarrow>
            map Inr (list_agents (snd (load_registry st))) =
              map construct_agent (filter (\<lambda>e. invalid_entry e = Inr False) es) \<and>
            length (list_agents (snd (load_registry st))) =
              length es - length (filter (\<lambda>e. invalid_entry e = Inr True) es) \<and>
            (\<forall>e\<in>set es. invalid_entry e = Inr True \<longrightarrow>
               (WARNING, Skipping_invalid_entry e) \<in> set (logged (snd (load_registry st))) \<and>
               construct_agent e \<notin> Inr ` set (list_agents (snd (load_registry st))))) \<and>
         (\<forall>kvs. JObj kvs \<in> set es \<longrightarrow>
            invalid_entry (JObj kvs) =
              Inr (''id'' \<notin> fst ` set kvs \<or> ''url'' \<notin> fst ` set kvs))"
proof -
  let ?st0 = "(emit File_open_read st)\<lparr>agents := []\<rparr>"
  let ?valid = "\<lambda>e. invalid_entry e = Inr False"
  let ?skipped = "\<lambda>e. invalid_entry e = Inr True"
  have obj: "\<forall>e\<in>set es. \<exists>b. invalid_entry e = Inr b"
    using assms(2) invalid_entry_object by auto
  obtain r s where ld: "load_entries es ?st0 = (r, s)"
    by (cases "load_entries es ?st0") auto
  have res: "load_registry st =
      (case r of Inl e \<Rightarrow> (Inl e, s)
       | Inr u \<Rightarrow> (Inr (), log_msg INFO (Loaded (length (agents s))) s))"
    using ld by (simp add: load_registry_array [OF assms(1)] split: sum.splits)
  have abort: "\<exists>d\<in>set es. invalid_entry d = Inr False \<and> construct_agent d = Inl x"
    if "fst (load_registry st) = Inl x" for x
  proof -
    from that res have "r = Inl x" by (cases r) simp_all
    with ld have "fst (load_entries es ?st0) = Inl x" by simp
    from load_entries_abort [OF assms(2) this] show ?thesis .
  qed
  have total: "fst (load_registry st) = Inr ()"
    if "\<forall>d\<in>set es. invalid_entry d = Inr False \<longrightarrow> (\<exists>a. construct_agent d = Inr a)"
  proof -
    from load_entries_total [OF obj that, of ?st0] ld have "r = Inr ()" by simp
    with res show ?thesis by simp
  qed
  have compl: "map Inr (list_agents (snd (load_registry st))) = map construct_agent (filter ?valid es) \<and>
            length (list_agents (snd (load_registry st))) =
              length es - length (filter ?skipped es) \<and>
            (\<forall>e\<in>set es. invalid_entry e = Inr True \<longrightarrow>
               (WARNING, Skipping_invalid_entry e) \<in> set (logged (snd (load_registry st))) \<and>
               construct_agent e \<notin> Inr ` set (list_agents (snd (load_registry st))))"
    if c: "fst (load_registry st) = Inr ()"
  proof -
    from c res have r: "r = Inr ()" by (cases r) simp_all
    with res have st': "snd (load_registry st) = log_msg INFO (Loaded (length (agents s))) s"
      by simp
    have ags: "map Inr (agents s) = map construct_agent (filter ?valid es)"
      using load_entries_agents [OF ld [unfolded r]] by (simp add: emit_def)
    have sets: "set (map construct_agent (filter ?valid es)) = set (map Inr (agents s))"
      using ags [symmetric] by (rule arg_cong)
    have acc: "\<forall>d\<in>set es. invalid_entry d = Inr False \<longrightarrow> (\<exists>a. construct_agent d = Inr a)"
    proof (intro ballI impI)
      fix d assume "d \<in> set es" "invalid_entry d = Inr False"
      then have "construct_agent d \<in> set (map construct_agent (filter ?valid es))" by simp
      then have "construct_agent d \<in> set (map Inr (agents s))" by (simp only: sets)
      then show "\<exists>a. construct_agent d = Inr a" by auto
    qed
    from load_entries_total [OF obj acc, of ?st0] ld
    have lg: "logged s = logged st @ map (\<lambda>e. (WARNING, Skipping_invalid_entry e))
               (filter ?skipped es)"
      by (simp add: emit_def)
    have "length (filter ?valid es) + length (filter ?skipped es) = length es"
      using obj by (induction es) auto
    moreover have "length (agents s) = length (filter ?valid es)"
      using arg_cong [OF ags, of length] by simp
    ultimately have len: "length (agents s) = length es - length (filter ?skipped es)"
      by simp
    have absent: "construct_agent e \<notin> Inr ` set (agents s)"
      if "e \<in> set es" "invalid_entry e = Inr True" for e
    proof -
      from that assms(2) obtain kvs where e: "e = JObj kvs" by auto
      with that(2) have "map_of kvs ''id'' = None \<or> map_of kvs ''url'' = None"
        by (auto simp: invalid_entry_object map_of_eq_None_iff)
      then have "\<exists>x. construct_agent e = Inl x"
        by (auto simp: e construct_agent_def Agent_def split: option.splits json.splits)
      then show ?thesis by auto
    qed
    show ?thesis
      using ags len lg absent
      by (auto simp: st' list_agents_def log_msg_def)
  qed
  have c1: "\<forall>x. fst (load_registry st) = Inl x \<longrightarrow>
      (\<exists>d\<in>set es. invalid_entry d = Inr False \<and> construct_agent d = Inl x)"
    by (intro allI impI) (rule abort)
  have c2: "(\<forall>d\<in>set es. invalid_entry d = Inr False \<longrightarrow> (\<exists>a. construct_agent d = Inr a)) \<longrightarrow>
      fst (load_registry st) = Inr ()"
    by (rule impI) (rule total)
  have c3: "fst (load_registry st) = Inr () \<longrightarrow>
            map Inr (list_agents (snd (load_registry st))) =
              map construct_agent (filter (\<lambda>e. invalid_entry e = Inr False) es) \<and>
            length (list_agents (snd (load_registry st))) =
              length es - length (filter (\<lambda>e. invalid_entry e = Inr True) es) \<and>
            (\<forall>e\<in>set es. invalid_entry e = Inr True \<longrightarrow>
               (WARNING, Skipping_invalid_entry e) \<in> set (logged (snd (load_registry st))) \<and>
               construct_agent e \<notin> Inr ` set (list_agents (snd (load_registry st))))"
    by (rule impI) (rule compl)
  have c4: "\<forall>kvs. JObj kvs \<in> set es \<longrightarrow>
            invalid_entry (JObj kvs) =
              Inr (''id'' \<notin> fst ` set kvs \<or> ''url'' \<notin> fst ` set kvs)"
    by (simp add: invalid_entry_object)
  from c1 c2 c3 c4 show ?thesis by (intro conjI)
qed

theorem load_skips_invalid_entries_witness:
  "fst (load_registry (fresh (Doc (JArr [entry_a, entry_no_url, entry_b])))) = Inr () \<and>
   length (list_agents (snd (load_registry (fresh (Doc (JArr [entry_a, entry_no_url, entry_b])))))) =
     3 - length (filter (\<lambda>e. invalid_entry e = Inr True) [entry_a, entry_no_url, entry_b]) \<and>
   filter (\<lambda>e. invalid_entry e = Inr True) [entry_a, entry_no_url, entry_b] = [entry_no_url] \<and>
   (WARNING, Skipping_invalid_entry entry_no_url)
     \<in> set (logged (snd (load_registry (fresh (Doc (JArr [entry_a, entry_no_url, entry_b]))))))"
proof -
  let ?es = "[entry_a, entry_no_url, entry_b]"
  have f: "registry_file (fresh (Doc (JArr ?es))) = Doc (JArr ?es)"
    by (simp add: fresh_def)
  have o: "\<forall>e\<in>set ?es. \<exists>kvs. e = JObj kvs"
    by (simp add: entry_a_def entry_b_def entry_no_url_def)
  have c: "\<forall>e\<in>set ?es. invalid_entry e = Inr False \<longrightarrow> (\<exists>a. construct_agent e = Inr a)"
    by (simp add: load_eval)
  have i: "filter (\<lambda>e. invalid_entry e = Inr True) ?es = [entry_no_url]"
    by (simp add: load_eval)
  have n: "entry_no_url \<in> set ?es" "invalid_entry entry_no_url = Inr True"
    by (simp_all add: load_eval)
  note t = load_skips_invalid_entries [OF f o]
  note t1 = t [THEN conjunct2, THEN conjunct1, THEN mp, OF c]
  note t3 = t [THEN conjunct2, THEN conjunct2, THEN conjunct1, THEN mp, OF t1]
  note t4 = t3 [THEN conjunct2, THEN conjunct1]
  note t5 = t3 [THEN conjunct2, THEN conjunct2, THEN bspec, OF n(1), THEN mp, OF n(2),
      THEN conjunct1]
  show ?thesis
    using t1 t4 t5 i by simp
qed

text \<open>The claim as stated fails for an entry that is not a container: on the file
  \<^verbatim>\<open>[5, {"id": "a", ...}]\<close> the test \<^verbatim>\<open>'id' not in data\<close> raises
  \<^verbatim>\<open>TypeError\<close> at the first entry, the load aborts and nothing is loaded.\<close>

theorem load_skips_invalid_entries_counterexample:
  "fst (load_registry (fresh (Doc (JArr [JNum 5, entry_a])))) = Inl TypeError \<and>
   list_agents (snd (load_registry (fresh (Doc (JArr [JNum 5, entry_a]))))) = []"
  by (simp add: load_eval)

subsection \<open>The status map and the overlay\<close>

lemma status_map_snoc:
  "status_map (ags @ [a]) = (status_map ags)(agent_id a \<mapsto> status a)"
  by (simp add: status_map_def)

lemma status_map_last:
  "status_map ags i =
     (if filter (\<lambda>a. agent_id a = i) ags = [] then None
      else Some (status (last (filter (\<lambda>a. agent_id a = i) ags))))"
proof (induction ags rule: rev_induct)
  case Nil
  then show ?case by (simp add: status_map_def)
next
  case (snoc a ags)
  then show ?case by (simp add: status_map_snoc)
qed

lemma status_map_Some:
  assumes "status_map ags i = Some v"
  shows "\<exists>a\<in>set ags. agent_id a = i \<and> status a = v"
proof -
  let ?f = "filter (\<lambda>a. agent_id a = i) ags"
  from assms have ne: "?f \<noteq> []" and v: "v = status (last ?f)"
    by (auto simp: status_map_last split: if_splits)
  from ne have "last ?f \<in> set ?f" by (rule last_in_set)
  then show ?thesis using v by auto
qed

lemma status_map_None: "status_map ags i = None \<longleftrightarrow> i \<notin> agent_id ` set ags"
  by (auto simp: status_map_last filter_empty_conv)


lemma filter_update_other:
  "filter (\<lambda>kv. fst kv \<noteq> k) (AList.update k v al) = filter (\<lambda>kv. fst kv \<noteq> k) al"
  by (induction al) auto

lemma overlay_entry_object:
  assumes "\<forall>v. map_of kvs ''id'' = Some v \<longrightarrow> hashable v"
  shows "overlay_entry m (JObj kvs) =
     Inr (case (case map_of kvs ''id'' of Some (JStr i) \<Rightarrow> m i | _ \<Rightarrow> None) of
            None \<Rightarrow> JObj kvs
          | Some s \<Rightarrow> JObj (AList.update ''status'' (JStr s) kvs))"
  using assms
  by (auto simp: overlay_entry_def json_get_def status_lookup_def set_status_def hashable_def
      split: option.splits json.splits)

lemma overlay_all_list_all2:
  "overlay_all m es = Inr es' \<Longrightarrow> list_all2 (\<lambda>e e'. overlay_entry m e = Inr e') es es'"
proof (induction es arbitrary: es')
  case Nil
  then show ?case by auto
next
  case (Cons e es)
  then show ?case
    by (auto split: sum.splits)
qed

lemma overlay_all_total:
  assumes "\<forall>e\<in>set es. \<exists>e'. overlay_entry m e = Inr e'"
  shows "\<exists>es'. overlay_all m es = Inr es'"
  using assms by (induction es) auto

lemma overlay_entry_idem:
  assumes "overlay_entry m e = Inr e'"
  shows "overlay_entry m e' = Inr e'"
proof -
  from assms obtain kvs where e: "e = JObj kvs"
    by (cases e) (auto simp: overlay_entry_def json_get_def)
  define aid where "aid = (case map_of kvs ''id'' of None \<Rightarrow> JNull | Some v \<Rightarrow> v)"
  from assms e obtain r where r: "status_lookup m aid = Inr r"
    by (auto simp: overlay_entry_def json_get_def aid_def split: sum.splits)
  show ?thesis
  proof (cases r)
    case None
    with assms e r show ?thesis
      by (auto simp: overlay_entry_def json_get_def aid_def)
  next
    case (Some s)
    with assms e r have e': "e' = JObj (AList.update ''status'' (JStr s) kvs)"
      by (auto simp: overlay_entry_def json_get_def aid_def set_status_def)
    have "map_of (AList.update ''status'' (JStr s) kvs) ''id'' = map_of kvs ''id''"
      by (simp add: update_conv')
    with r Some show ?thesis
      by (simp add: e' overlay_entry_def json_get_def aid_def set_status_def)
  qed
qed

lemma overlay_all_idem:
  "overlay_all m es = Inr es' \<Longrightarrow> overlay_all m es' = Inr es'"
proof (induction es arbitrary: es')
  case Nil
  then show ?case by auto
next
  case (Cons e es)
  then show ?case
    by (auto split: sum.splits dest: overlay_entry_idem)
qed

lemma overlay_doc_idem:
  assumes "overlay_doc m d = Inr d'"
  shows "overlay_doc m d' = Inr d'"
proof (cases d)
  case (JArr es)
  with assms obtain es' where "overlay_all m es = Inr es'" "d' = JArr es'"
    by (auto simp: overlay_doc_def py_iter_def split: sum.splits)
  then show ?thesis
    using overlay_all_idem [of m es es'] by (simp add: overlay_doc_def py_iter_def)
qed (use assms in \<open>auto simp: overlay_doc_def py_iter_def split: sum.splits\<close>)

lemma save_file:
  "registry_file (snd (save_registry_statuses st)) =
     (case registry_file st of
        Doc d \<Rightarrow>
          (case overlay_doc (status_map (agents st)) d of
             Inl e \<Rightarrow> Doc d
           | Inr d' \<Rightarrow> if writable st then Doc d' else Doc d)
      | f \<Rightarrow> f)"
  by (auto simp: save_registry_statuses_def save_body_def read_registry_def write_registry_def
      emit_def log_msg_def split: disk_file.splits sum.splits prod.splits)

lemma save_text:
  "registry_text (snd (save_registry_statuses st)) =
     (case registry_file st of
        Doc d \<Rightarrow>
          (case overlay_doc (status_map (agents st)) d of
             Inl e \<Rightarrow> registry_text st
           | Inr d' \<Rightarrow> if writable st then json_dump d' else registry_text st)
      | f \<Rightarrow> registry_text st)"
  by (auto simp: save_registry_statuses_def save_body_def read_registry_def write_registry_def
      emit_def log_msg_def split: disk_file.splits sum.splits prod.splits)

lemma save_flushes:
  assumes "registry_file st = Doc (JArr es)" and "writable st"
    and "\<forall>e\<in>set es. \<exists>kvs. e = JObj kvs \<and> (\<forall>v. map_of kvs ''id'' = Some v \<longrightarrow> hashable v)"
  shows "\<exists>es'. registry_file (snd (save_registry_statuses st)) = Doc (JArr es') \<and>
           registry_text (snd (save_registry_statuses st)) = json_dump (JArr es') \<and>
           list_all2 (\<lambda>e e'. overlay_entry (status_map (agents st)) e = Inr e') es es'"
proof -
  have "\<forall>e\<in>set es. \<exists>e'. overlay_entry (status_map (agents st)) e = Inr e'"
  proof
    fix e assume "e \<in> set es"
    with assms(3) obtain kvs where "e = JObj kvs"
      and "\<forall>v. map_of kvs ''id'' = Some v \<longrightarrow> hashable v" by blast
    then show "\<exists>e'. overlay_entry (status_map (agents st)) e = Inr e'"
      using overlay_entry_object [of kvs "status_map (agents st)"] by simp
  qed
  from overlay_all_total [OF this] obtain es'
    where es': "overlay_all (status_map (agents st)) es = Inr es'" by blast
  then have "registry_file (snd (save_registry_statuses st)) = Doc (JArr es')"
    and "registry_text (snd (save_registry_statuses st)) = json_dump (JArr es')"
    using assms(1,2) by (simp_all add: save_file save_text overlay_doc_def py_iter_def)
  with overlay_all_list_all2 [OF es'] show ?thesis by blast
qed

lemma overlay_entry_frame:
  assumes ov: "overlay_entry (status_map ags) (JObj kvs) = Inr e'"
  shows "\<exists>kvs'. e' = JObj kvs' \<and>
           filter (\<lambda>kv. fst kv \<noteq> ''status'') kvs' = filter (\<lambda>kv. fst kv \<noteq> ''status'') kvs \<and>
           (if \<exists>a\<in>set ags. map_of kvs ''id'' = Some (JStr (agent_id a))
            then \<exists>a\<in>set ags. map_of kvs ''id'' = Some (JStr (agent_id a)) \<and>
                   map_of kvs' ''status'' = Some (JStr (status a))
            else kvs' = kvs)"
proof -
  let ?m = "status_map ags"
  define aid where "aid = (case map_of kvs ''id'' of None \<Rightarrow> JNull | Some v \<Rightarrow> v)"
  from ov obtain r where r: "status_lookup ?m aid = Inr r"
    by (auto simp: overlay_entry_def json_get_def aid_def split: sum.splits)
  show ?thesis
  proof (cases r)
    case None
    with ov r have e': "e' = JObj kvs"
      by (simp add: overlay_entry_def json_get_def aid_def)
    have no: "\<not> (\<exists>a\<in>set ags. map_of kvs ''id'' = Some (JStr (agent_id a)))"
    proof
      assume "\<exists>a\<in>set ags. map_of kvs ''id'' = Some (JStr (agent_id a))"
      then obtain a where a: "a \<in> set ags" "map_of kvs ''id'' = Some (JStr (agent_id a))"
        by blast
      then have "aid = JStr (agent_id a)" by (simp add: aid_def)
      with r None have "?m (agent_id a) = None"
        by (simp add: status_lookup_def hashable_def)
      with a(1) show False by (simp add: status_map_None)
    qed
    have "e' = JObj kvs \<and>
           filter (\<lambda>kv. fst kv \<noteq> ''status'') kvs = filter (\<lambda>kv. fst kv \<noteq> ''status'') kvs \<and>
           (if \<exists>a\<in>set ags. map_of kvs ''id'' = Some (JStr (agent_id a))
            then \<exists>a\<in>set ags. map_of kvs ''id'' = Some (JStr (agent_id a)) \<and>
                   map_of kvs ''status'' = Some (JStr (status a))
            else kvs = kvs)"
      using e' no by (simp only: if_not_P simp_thms)
    then show ?thesis by (rule exI)
  next
    case (Some s)
    with ov r have e': "e' = JObj (AList.update ''status'' (JStr s) kvs)"
      by (simp add: overlay_entry_def json_get_def aid_def set_status_def)
    from r Some obtain i where i: "aid = JStr i" "?m i = Some s"
      by (cases aid) (auto simp: status_lookup_def hashable_def split: if_splits)
    from i(1) have id: "map_of kvs ''id'' = Some (JStr i)"
      by (auto simp: aid_def split: option.splits)
    from status_map_Some [OF i(2)] obtain a
      where a: "a \<in> set ags" "agent_id a = i" "status a = s" by blast
    have st: "map_of (AList.update ''status'' (JStr s) kvs) ''status'' = Some (JStr (status a))"
      using a(3) by (simp add: update_conv')
    have ex: "\<exists>a\<in>set ags. map_of kvs ''id'' = Some (JStr (agent_id a)) \<and>
        map_of (AList.update ''status'' (JStr s) kvs) ''status'' = Some (JStr (status a))"
      using a(1,2) id st by blast
    then have ex0: "\<exists>a\<in>set ags. map_of kvs ''id'' = Some (JStr (agent_id a))"
      by blast
    have "e' = JObj (AList.update ''status'' (JStr s) kvs) \<and>
           filter (\<lambda>kv. fst kv \<noteq> ''status'') (AList.update ''status'' (JStr s) kvs) =
             filter (\<lambda>kv. fst kv \<noteq> ''status'') kvs \<and>
           (if \<exists>a\<in>set ags. map_of kvs ''id'' = Some (JStr (agent_id a))
            then \<exists>a\<in>set ags. map_of kvs ''id'' = Some (JStr (agent_id a)) \<and>
                   map_of (AList.update ''status'' (JStr s) kvs) ''status'' = Some (JStr (status a))
            else AList.update ''status'' (JStr s) kvs = kvs)"
      using e' ex ex0 filter_update_other [of "''status''" "JStr s" kvs]
      by (simp only: if_P simp_thms)
    then show ?thesis by (rule exI)
  qed
qed

text \<open>
  C4 (as amended). When the durable file can be read again as a list of objects (whose
  \<^verbatim>\<open>id\<close>, if any, can be hashed) and can be written, \<^verbatim>\<open>save_registry_statuses\<close>
  writes back a list of the same length in the same order; in every entry the fields
  other than \<^verbatim>\<open>status\<close> are the same keys with the same parsed values in the same
  order; an entry whose \<^verbatim>\<open>id\<close> is the id of a loaded record carries the status of such
  a record; an entry whose \<^verbatim>\<open>id\<close> matches no loaded record has the parsed value it
  had. The bytes of the file are those that \<^verbatim>\<open>json.dump\<close> with \<^verbatim>\<open>indent=2\<close> writes
  for the merged document: the whole file is serialised again, so the bytes of a field
  or of an entry are not kept as they were.
\<close>

theorem persist_overlays_status_only:
  assumes "registry_file st = Doc (JArr es)" and "writable st"
    and "\<forall>e\<in>set es. \<exists>kvs. e = JObj kvs \<and> (\<forall>v. map_of kvs ''id'' = Some v \<longrightarrow> hashable v)"
  shows "\<exists>es'. registry_file (snd (save_registry_statuses st)) = Doc (JArr es') \<and>
           registry_text (snd (save_registry_statuses st)) = json_dump (JArr es') \<and>
           length es' = length es \<and>
           (\<forall>n<length es. \<forall>kvs. es ! n = JObj kvs \<longrightarrow> (\<exists>kvs'.
              es' ! n = JObj kvs' \<and>
              filter (\<lambda>kv. fst kv \<noteq> ''status'') kvs' = filter (\<lambda>kv. fst kv \<noteq> ''status'') kvs \<and>
              (if \<exists>a\<in>set (agents st). map_of kvs ''id'' = Some (JStr (agent_id a))
               then \<exists>a\<in>set (agents st). map_of kvs ''id'' = Some (JStr (agent_id a)) \<and>
                      map_of kvs' ''status'' = Some (JStr (status a))
               else kvs' = kvs)))"
proof -
  let ?m = "status_map (agents st)"
  from save_flushes [OF assms] obtain es'
    where fl: "registry_file (snd (save_registry_statuses st)) = Doc (JArr es')"
      and tx: "registry_text (snd (save_registry_statuses st)) = json_dump (JArr es')"
      and rel: "list_all2 (\<lambda>e e'. overlay_entry ?m e = Inr e') es es'" by blast
  from rel have len: "length es' = length es"
    by (simp add: list_all2_lengthD)
  have "\<forall>n<length es. \<forall>kvs. es ! n = JObj kvs \<longrightarrow> (\<exists>kvs'.
              es' ! n = JObj kvs' \<and>
              filter (\<lambda>kv. fst kv \<noteq> ''status'') kvs' = filter (\<lambda>kv. fst kv \<noteq> ''status'') kvs \<and>
              (if \<exists>a\<in>set (agents st). map_of kvs ''id'' = Some (JStr (agent_id a))
               then \<exists>a\<in>set (agents st). map_of kvs ''id'' = Some (JStr (agent_id a)) \<and>
                      map_of kvs' ''status'' = Some (JStr (status a))
               else kvs' = kvs))"
  proof (intro allI impI)
    fix n kvs assume n: "n < length es" and kvs: "es ! n = JObj kvs"
    have "overlay_entry ?m (es ! n) = Inr (es' ! n)"
      by (rule list_all2_nthD [OF rel n])
    then have "overlay_entry ?m (JObj kvs) = Inr (es' ! n)"
      by (simp only: kvs)
    then show "\<exists>kvs'.
              es' ! n = JObj kvs' \<and>
              filter (\<lambda>kv. fst kv \<noteq> ''status'') kvs' = filter (\<lambda>kv. fst kv \<noteq> ''status'') kvs \<and>
              (if \<exists>a\<in>set (agents st). map_of kvs ''id'' = Some (JStr (agent_id a))
               then \<exists>a\<in>set (agents st). map_of kvs ''id'' = Some (JStr (agent_id a)) \<and>
                      map_of kvs' ''status'' = Some (JStr (status a))
               else kvs' = kvs)"
      by (rule overlay_entry_frame)
  qed
  with fl tx len show ?thesis
    by (intro exI [of _ es'] conjI)
qed

theorem persist_overlays_status_only_witness:
  "\<exists>es'. registry_file (snd (save_registry_statuses three_on_disk)) = Doc (JArr es') \<and>
     registry_text (snd (save_registry_statuses three_on_disk)) = json_dump (JArr es') \<and>
     length es' = 3 \<and> es' ! 1 = entry_c \<and>
     (\<exists>kvs'. es' ! 0 = JObj kvs' \<and>
        filter (\<lambda>kv. fst kv \<noteq> ''status'') kvs' =
          [(''id'', JStr ''a''), (''url'', JStr ''http://x''), (''name'', JStr ''first'')] \<and>
        map_of kvs' ''status'' = Some (JStr ''unknown''))"
proof -
  let ?es = "[entry_a, entry_c, entry_b]"
  have f: "registry_file three_on_disk = Doc (JArr ?es)" and w: "writable three_on_disk"
    and ags: "agents three_on_disk = [agent_a, agent_b]"
    by (simp_all add: three_on_disk_def two_agents_def)
  have h: "\<forall>e\<in>set ?es. \<exists>kvs. e = JObj kvs \<and> (\<forall>v. map_of kvs ''id'' = Some v \<longrightarrow> hashable v)"
    by (simp add: entry_a_def entry_b_def entry_c_def hashable_def)
  from persist_overlays_status_only [OF f w h] obtain es'
    where fl: "registry_file (snd (save_registry_statuses three_on_disk)) = Doc (JArr es')"
      and tx: "registry_text (snd (save_registry_statuses three_on_disk)) = json_dump (JArr es')"
      and len: "length es' = length ?es"
      and ent: "\<forall>n<length ?es. \<forall>kvs. ?es ! n = JObj kvs \<longrightarrow> (\<exists>kvs'.
              es' ! n = JObj kvs' \<and>
              filter (\<lambda>kv. fst kv \<noteq> ''status'') kvs' = filter (\<lambda>kv. fst kv \<noteq> ''status'') kvs \<and>
              (if \<exists>a\<in>set (agents three_on_disk). map_of kvs ''id'' = Some (JStr (agent_id a))
               then \<exists>a\<in>set (agents three_on_disk). map_of kvs ''id'' = Some (JStr (agent_id a)) \<and>
                      map_of kvs' ''status'' = Some (JStr (status a))
               else kvs' = kvs))"
    by blast
  have c: "?es ! 1 = JObj [(''id'', JStr ''c''), (''url'', JStr ''http://z''),
                   (''status'', JStr ''healthy'')]"
    by (simp add: entry_c_def)
  have a: "?es ! 0 = JObj [(''id'', JStr ''a''), (''url'', JStr ''http://x''),
                   (''name'', JStr ''first'')]"
    by (simp add: entry_a_def)
  from ent [rule_format, of 1, OF _ c] have c': "es' ! 1 = entry_c"
    by (auto simp: ags agent_a_def agent_b_def entry_c_def)
  from ent [rule_format, of 0, OF _ a]
  have a': "\<exists>kvs'. es' ! 0 = JObj kvs' \<and>
        filter (\<lambda>kv. fst kv \<noteq> ''status'') kvs' =
          [(''id'', JStr ''a''), (''url'', JStr ''http://x''), (''name'', JStr ''first'')] \<and>
        map_of kvs' ''status'' = Some (JStr ''unknown'')"
    by (auto simp: ags agent_a_def agent_b_def)
  from fl tx len c' a' show ?thesis by auto
qed

text \<open>
  The claim as stated fails on the bytes. The entry of the one-line file matches no loaded
  record; after the flush the file is spread over six lines and its field
  \<^verbatim>\<open>"weight":1.0e2\<close> reads \<^verbatim>\<open>"weight": 100.0\<close>. And when an entry of the file is
  not an object, nothing is written: the entry \<^verbatim>\<open>a\<close> of the second file matches a
  loaded record and gets no status.
\<close>

theorem persist_overlays_status_only_counterexample:
  "registry_text compact_on_disk =
     ''[{'' @ dq @ ''id'' @ dq @ '':'' @ dq @ ''c'' @ dq @ '','' @
     dq @ ''url'' @ dq @ '':'' @ dq @ ''http://z'' @ dq @ '','' @
     dq @ ''weight'' @ dq @ '':1.0e2}]'' \<and>
   registry_text (snd (save_registry_statuses compact_on_disk)) =
     ''['' @ nl @
     ''  {'' @ nl @
     ''    '' @ dq @ ''id'' @ dq @ '': '' @ dq @ ''c'' @ dq @ '','' @ nl @
     ''    '' @ dq @ ''url'' @ dq @ '': '' @ dq @ ''http://z'' @ dq @ '','' @ nl @
     ''    '' @ dq @ ''weight'' @ dq @ '': 100.0'' @ nl @
     ''  }'' @ nl @
     '']'' \<and>
   registry_text (snd (save_registry_statuses compact_on_disk)) \<noteq>
     registry_text compact_on_disk \<and>
   registry_file (snd (save_registry_statuses compact_on_disk)) = Doc (JArr [entry_w]) \<and>
   registry_file (snd (save_registry_statuses number_on_disk)) = Doc (JArr [entry_a, JNum 5]) \<and>
   registry_text (snd (save_registry_statuses number_on_disk)) = registry_text number_on_disk"
proof -
  have before: "registry_text compact_on_disk =
     ''[{'' @ dq @ ''id'' @ dq @ '':'' @ dq @ ''c'' @ dq @ '','' @
     dq @ ''url'' @ dq @ '':'' @ dq @ ''http://z'' @ dq @ '','' @
     dq @ ''weight'' @ dq @ '':1.0e2}]''"
    by (simp add: compact_on_disk_def)
  have st: "registry_file compact_on_disk = Doc (JArr [entry_w])" "writable compact_on_disk"
    "agents compact_on_disk = [agent_a, agent_b]"
    by (simp_all add: compact_on_disk_def two_agents_def)
  have ov: "overlay_doc (status_map [agent_a, agent_b]) (JArr [entry_w]) = Inr (JArr [entry_w])"
    by (simp add: overlay_doc_def py_iter_def overlay_entry_def json_get_def status_lookup_def
        hashable_def status_map_def entry_w_def agent_a_def agent_b_def)
  have dump: "json_dump (JArr [entry_w]) =
     ''['' @ nl @
     ''  {'' @ nl @
     ''    '' @ dq @ ''id'' @ dq @ '': '' @ dq @ ''c'' @ dq @ '','' @ nl @
     ''    '' @ dq @ ''url'' @ dq @ '': '' @ dq @ ''http://z'' @ dq @ '','' @ nl @
     ''    '' @ dq @ ''weight'' @ dq @ '': 100.0'' @ nl @
     ''  }'' @ nl @
     '']''"
    by (simp add: json_dump_def entry_w_def quoted_def escape_char_def newline_indent_def
        dq_def nl_def numeral_2_eq_2)
  have after: "registry_text (snd (save_registry_statuses compact_on_disk)) =
      json_dump (JArr [entry_w])"
    and parsed: "registry_file (snd (save_registry_statuses compact_on_disk)) = Doc (JArr [entry_w])"
    by (simp_all add: save_text save_file st ov)
  have differ: "registry_text (snd (save_registry_statuses compact_on_disk)) \<noteq>
      registry_text compact_on_disk"
    by (simp add: after dump before dq_def nl_def)
  have st2: "registry_file number_on_disk = Doc (JArr [entry_a, JNum 5])"
    "agents number_on_disk = [agent_a, agent_b]"
    by (simp_all add: number_on_disk_def two_agents_def)
  have ov2: "overlay_doc (status_map [agent_a, agent_b]) (JArr [entry_a, JNum 5]) =
      Inl AttributeError"
    by (simp add: overlay_doc_def py_iter_def overlay_entry_def json_get_def status_lookup_def
        hashable_def status_map_def set_status_def entry_a_def agent_a_def agent_b_def)
  have kept: "registry_file (snd (save_registry_statuses number_on_disk)) =
      Doc (JArr [entry_a, JNum 5])"
    "registry_text (snd (save_registry_statuses number_on_disk)) = registry_text number_on_disk"
    by (simp_all add: save_text save_file st2 ov2)
  from before after [unfolded dump] differ parsed kept show ?thesis
    by (intro conjI)
qed

subsection \<open>Records that share an id\<close>



subsection \<open>Two sweeps in a row\<close>

lemma save_file_idem:
  assumes "agents st' = agents st" and "writable st' = writable st"
    and "registry_file st' = registry_file (snd (save_registry_statuses st))"
  shows "registry_file (snd (save_registry_statuses st')) = registry_file st'"
proof (cases "registry_file st")
  case (Doc d)
  show ?thesis
  proof (cases "overlay_doc (status_map (agents st)) d")
    case (Inl e)
    with Doc assms show ?thesis by (simp add: save_file)
  next
    case (Inr d')
    show ?thesis
    proof (cases "writable st")
      case True
      with Doc Inr assms overlay_doc_idem [OF Inr] show ?thesis by (simp add: save_file)
    next
      case False
      with Doc Inr assms show ?thesis by (simp add: save_file)
    qed
  qed
qed (use assms in \<open>simp_all add: save_file\<close>)

lemma save_text_idem:
  assumes "agents st' = agents st" and "writable st' = writable st"
    and "registry_file st' = registry_file (snd (save_registry_statuses st))"
    and "registry_text st' = registry_text (snd (save_registry_statuses st))"
  shows "registry_text (snd (save_registry_statuses st')) = registry_text st'"
proof (cases "registry_file st")
  case (Doc d)
  show ?thesis
  proof (cases "overlay_doc (status_map (agents st)) d")
    case (Inl e)
    with Doc assms show ?thesis by (simp add: save_file save_text)
  next
    case (Inr d')
    show ?thesis
    proof (cases "writable st")
      case True
      with Doc Inr assms overlay_doc_idem [OF Inr] show ?thesis
        by (simp add: save_file save_text)
    next
      case False
      with Doc Inr assms show ?thesis by (simp add: save_file save_text)
    qed
  qed
qed (use assms in \<open>simp_all add: save_file save_text\<close>)

lemma health_check_agents_file:
  "registry_file (snd (health_check_agents net st)) =
     registry_file (snd (save_registry_statuses (probe_all net st))) \<and>
   writable (snd (health_check_agents net st)) = writable st"
  by (simp add: health_check_agents_eq log_msg_def save_writable probe_all_frame)

lemma health_check_agents_text:
  "registry_text (snd (health_check_agents net st)) =
     registry_text (snd (save_registry_statuses (probe_all net st)))"
  by (simp add: health_check_agents_eq log_msg_def)

text \<open>
  C8. A second sweep over the same network (every probe has the outcome it had in the
  first sweep) leaves the records, the content of the durable file and its bytes as the
  first sweep left them.
\<close>

theorem sweep_idempotent:
  "agents (snd (health_check_agents net (snd (health_check_agents net st)))) =
     agents (snd (health_check_agents net st)) \<and>
   registry_file (snd (health_check_agents net (snd (health_check_agents net st)))) =
     registry_file (snd (health_check_agents net st)) \<and>
   registry_text (snd (health_check_agents net (snd (health_check_agents net st)))) =
     registry_text (snd (health_check_agents net st))"
proof -
  let ?s1 = "snd (health_check_agents net st)"
  have a1: "agents ?s1 = agents (probe_all net st)"
    by (simp add: health_check_agents_eq log_msg_def save_agents)
  have a2: "agents (probe_all net ?s1) = agents (probe_all net st)"
    by (simp add: probe_all_agents a1 comp_def health_url_def)
  have ags: "agents (snd (health_check_agents net ?s1)) = agents ?s1"
    using a1 a2 by (simp add: health_check_agents_eq [of net ?s1] log_msg_def save_agents)
  have w: "writable (probe_all net ?s1) = writable (probe_all net st)"
    by (simp add: probe_all_frame health_check_agents_file)
  have f: "registry_file (probe_all net ?s1) =
      registry_file (snd (save_registry_statuses (probe_all net st)))"
    by (simp add: probe_all_frame health_check_agents_file)
  have "registry_file (snd (save_registry_statuses (probe_all net ?s1))) =
      registry_file (probe_all net ?s1)"
    by (rule save_file_idem [OF a2 w f])
  then have fl: "registry_file (snd (health_check_agents net ?s1)) = registry_file ?s1"
    using f by (simp add: health_check_agents_file)
  have t: "registry_text (probe_all net ?s1) =
      registry_text (snd (save_registry_statuses (probe_all net st)))"
    by (simp add: probe_all_text health_check_agents_text)
  have "registry_text (snd (save_registry_statuses (probe_all net ?s1))) =
      registry_text (probe_all net ?s1)"
    by (rule save_text_idem [OF a2 w f t])
  then have "registry_text (snd (health_check_agents net ?s1)) = registry_text ?s1"
    using t by (simp add: health_check_agents_text)
  with ags fl show ?thesis by simp
qed

theorem sweep_idempotent_witness:
  "map status (agents (snd (health_check_agents net_a_up
      (snd (health_check_agents net_a_up two_agents))))) = [''healthy'', ''offline''] \<and>
   registry_file (snd (health_check_agents net_a_up
      (snd (health_check_agents net_a_up two_agents)))) =
     Doc (JArr [JObj [(''id'', JStr ''a''), (''url'', JStr ''http://x''),
                      (''name'', JStr ''first''), (''status'', JStr ''healthy'')],
                JObj [(''id'', JStr ''b''), (''url'', JStr ''http://y/''),
                      (''status'', JStr ''offline'')]])"
proof -
  have "map status (agents (snd (health_check_agents net_a_up two_agents))) =
      [''healthy'', ''offline'']"
    by (simp add: eval_defs)
  moreover have "registry_file (snd (health_check_agents net_a_up two_agents)) =
     Doc (JArr [JObj [(''id'', JStr ''a''), (''url'', JStr ''http://x''),
                      (''name'', JStr ''first''), (''status'', JStr ''healthy'')],
                JObj [(''id'', JStr ''b''), (''url'', JStr ''http://y/''),
                      (''status'', JStr ''offline'')]])"
    by (simp add: eval_defs)
  ultimately show ?thesis
    using sweep_idempotent [of net_a_up two_agents] by simp
qed

end
